theory Spec2Isabelle
  imports Main "HOL-Library.Word"
begin

section \<open>Spillable buffers: data model\<close>

text \<open>
  The development embeds the Cython class \<open>SpillableBuffer\<close> and the function
  \<open>create_view\<close>. Python objects live in a store indexed by references, because views
  alias their base buffer. Device memory is a byte-addressed function; host memory is a
  \<open>memoryview\<close> with its own item structure. The locks are reentrant
  and the model is sequential, so acquiring one has no effect. Every operation returns
  \<open>None\<close> when it is applied to a reference that the store does not hold or when its
  chain of delegations does not end; otherwise it returns the outcome (an exception or a
  value) together with the store it leaves behind.
\<close>

type_synonym byte = "8 word"
type_synonym ref = nat

datatype error =
    ValueError string
  | AssertionError
  | KeyError string
  | OverflowError
  | AttributeError
  | TypeError

section \<open>Python slices\<close>

text \<open>Python's \<open>slice.indices(length)\<close>.\<close>

record slice =
  start :: "int option"
  stop :: "int option"
  step :: "int option"

definition slice_indices :: "slice \<Rightarrow> int \<Rightarrow> error + (int \<times> int \<times> int)" where
  "slice_indices key len =
     (let st = (case step key of None \<Rightarrow> 1 | Some k \<Rightarrow> k) in
      if st = 0 then Inl (ValueError ''slice step cannot be zero'')
      else if len < 0 then Inl (ValueError ''length should not be negative'')
      else
        (let lower = (if st < 0 then - 1 else 0);
             upper = (if st < 0 then len - 1 else len);
             adj = (\<lambda>v. if v < 0 then max (v + len) lower else min v upper);
             a = (case start key of None \<Rightarrow> (if st < 0 then upper else lower) | Some v \<Rightarrow> adj v);
             b = (case stop key of None \<Rightarrow> (if st < 0 then lower else upper) | Some v \<Rightarrow> adj v)
         in Inr (a, b, st)))"

text \<open>Slicing a sequence with \<open>xs[a:b]\<close>.\<close>

definition py_getslice :: "'a list \<Rightarrow> int \<Rightarrow> int \<Rightarrow> 'a list" where
  "py_getslice xs a b =
     (case slice_indices \<lparr>start = Some a, stop = Some b, step = None\<rparr> (int (length xs)) of
        Inl e \<Rightarrow> []
      | Inr (a', b', st) \<Rightarrow> take (nat (b' - a')) (drop (nat a') xs))"

section \<open>Host memory\<close>

text \<open>
  A \<open>memoryview\<close> over C-contiguous host memory, as Python presents it. For a buffer of
  one or more dimensions it is the list of the entries along the first dimension, each
  with its bytes: an entry of a one-dimensional buffer is one item of \<open>itemsize\<close> bytes.
  A zero-dimensional buffer is its one item. \<open>nbytes\<close> counts bytes; a slice selects
  entries, not bytes, and is refused for a zero-dimensional buffer.
  \<open>memoryview(bytearray(n))\<close> has one entry for every byte.
\<close>

datatype hostmem =
    Mem0 "byte list"
  | MemN "byte list list"

fun nbytes :: "hostmem \<Rightarrow> nat" where
  "nbytes (Mem0 bs) = length bs"
| "nbytes (MemN rows) = length (concat rows)"

fun tobytes :: "hostmem \<Rightarrow> byte list" where
  "tobytes (Mem0 bs) = bs"
| "tobytes (MemN rows) = concat rows"

definition bytes_view :: "byte list \<Rightarrow> hostmem" where
  "bytes_view bs = MemN (map (\<lambda>x. [x]) bs)"

fun mv_getslice :: "hostmem \<Rightarrow> int \<Rightarrow> int \<Rightarrow> error + hostmem" where
  "mv_getslice (Mem0 bs) a z = Inl TypeError"
| "mv_getslice (MemN rows) a z = Inr (MemN (py_getslice rows a z))"

text \<open>Host memory in which every entry along the first dimension is one byte, as
  \<open>memoryview(bytearray(n))\<close> and \<open>memoryview(bytes)\<close> are.\<close>

fun byte_items :: "hostmem \<Rightarrow> bool" where
  "byte_items (Mem0 bs) = False"
| "byte_items (MemN rows) = list_all (\<lambda>row. length row = 1) rows"

section \<open>Buffers and the program state\<close>

datatype owner =
    Owner_None
  | Owner_Data
  | Owner_DeviceBuffer int
  | Owner_Base ref

text \<open>
  The fields of one \<open>SpillableBuffer\<close> object. The dictionary \<open>_ptr_desc\<close> has the key
  \<open>"type"\<close> and, for host residency, the key \<open>"memoryview"\<close>; they are the fields
  \<open>ptr_type\<close> and \<open>ptr_memoryview\<close>. A view is made by \<open>__new__\<close> and sets only
  \<open>_size\<close>, \<open>_owner\<close> and \<open>_view_desc\<close>; its other fields are never read.
\<close>

record buffer =
  exposed_f :: bool
  last_accessed_f :: nat
  view_desc :: "(ref \<times> int) option"
  ptr_type :: string
  ptr_memoryview :: "hostmem option"
  ptr_f :: int
  size_f :: int
  owner_f :: owner

text \<open>
  The program state: the object store, device memory with the allocator's next free
  address, the monotonic clock, the live token collections (each entry of a collection
  is a copy of the expose counter of the base buffer it names) and the base buffers the
  manager has been told about.
\<close>

record state =
  heap :: "ref \<Rightarrow> buffer option"
  next_ref :: ref
  dmem :: "int \<Rightarrow> byte"
  alloc_next :: int
  clock :: nat
  owners :: "ref list list"
  registered :: "ref list"

section \<open>External collaborators\<close>

text \<open>\<open>time.monotonic()\<close>: reads the clock, which then advances.\<close>

definition time_monotonic :: "state \<Rightarrow> nat \<times> state" where
  "time_monotonic s = (clock s, s\<lparr>clock := Suc (clock s)\<rparr>)"

text \<open>\<open>copy_ptr_to_host(ptr, host_mem)\<close>: the \<open>n\<close> bytes of device memory from \<open>p\<close>.\<close>

definition copy_ptr_to_host :: "(int \<Rightarrow> byte) \<Rightarrow> int \<Rightarrow> nat \<Rightarrow> byte list" where
  "copy_ptr_to_host m p n = map (\<lambda>i. m (p + int i)) [0..<n]"

definition dmem_write :: "(int \<Rightarrow> byte) \<Rightarrow> int \<Rightarrow> byte list \<Rightarrow> (int \<Rightarrow> byte)" where
  "dmem_write m p bs =
     (\<lambda>a. if p \<le> a \<and> a < p + int (length bs) then bs ! nat (a - p) else m a)"

text \<open>
  \<open>rmm.DeviceBuffer(ptr=..., size=...)\<close> and \<open>rmm.DeviceBuffer.to_device\<close>: a new device
  allocation holding a copy of the host bytes. The raw allocator is external; it is
  taken to succeed and to hand out the next free address.
\<close>

definition to_device :: "state \<Rightarrow> byte list \<Rightarrow> int \<times> state" where
  "to_device s bs =
     (alloc_next s,
      s\<lparr>dmem := dmem_write (dmem s) (alloc_next s) bs,
        alloc_next := alloc_next s + int (length bs)\<rparr>)"

text \<open>The use count of the shared pointer \<open>_expose_counter\<close> of base buffer \<open>r\<close>: the
  buffer's own copy and one for every token in a live collection.\<close>

definition use_count :: "state \<Rightarrow> ref \<Rightarrow> nat" where
  "use_count s r = Suc (count_list (concat (owners s)) r)"

section \<open>Properties of a buffer\<close>

partial_function (option) is_spilled :: "state \<Rightarrow> ref \<Rightarrow> bool option" where
  "is_spilled s r =
     (case heap s r of
        None \<Rightarrow> None
      | Some b \<Rightarrow>
          (case view_desc b of
             Some (base, off) \<Rightarrow> is_spilled s base
           | None \<Rightarrow> Some (ptr_type b \<noteq> ''gpu'')))"

partial_function (option) exposed :: "state \<Rightarrow> ref \<Rightarrow> bool option" where
  "exposed s r =
     (case heap s r of
        None \<Rightarrow> None
      | Some b \<Rightarrow>
          (case view_desc b of
             Some (base, off) \<Rightarrow> exposed s base
           | None \<Rightarrow> Some (exposed_f b)))"

partial_function (option) expose_counter :: "state \<Rightarrow> ref \<Rightarrow> nat option" where
  "expose_counter s r =
     (case heap s r of
        None \<Rightarrow> None
      | Some b \<Rightarrow>
          (case view_desc b of
             Some (base, off) \<Rightarrow> expose_counter s base
           | None \<Rightarrow> Some (use_count s r)))"

partial_function (option) spillable :: "state \<Rightarrow> ref \<Rightarrow> bool option" where
  "spillable s r =
     (case heap s r of
        None \<Rightarrow> None
      | Some b \<Rightarrow>
          (case view_desc b of
             Some (base, off) \<Rightarrow> spillable s base
           | None \<Rightarrow> Some (\<not> exposed_f b \<and> use_count s r = 1)))"

definition size_p :: "state \<Rightarrow> ref \<Rightarrow> int option" where
  "size_p s r = map_option size_f (heap s r)"

definition last_accessed :: "state \<Rightarrow> ref \<Rightarrow> nat option" where
  "last_accessed s r =
     (case heap s r of
        None \<Rightarrow> None
      | Some b \<Rightarrow>
          (case view_desc b of
             Some (base, off) \<Rightarrow> map_option last_accessed_f (heap s base)
           | None \<Rightarrow> Some (last_accessed_f b)))"

section \<open>Residency transition\<close>

definition Unspillable :: error where
  "Unspillable = ValueError ''Cannot in-place move an unspillable buffer''"

definition UnknownTarget :: error where
  "UnknownTarget = ValueError ''Unknown target''"

text \<open>
  \<open>move_inplace\<close>: the assertion, the early return when the residency is the target, the
  refusal for an unspillable buffer, then the two copies. \<open>bytearray(self.size)\<close> raises
  \<open>ValueError\<close> for a negative size. \<open>to_device\<close> is taken to copy the \<open>nbytes\<close> bytes
  of the host memory, whatever its item format.
\<close>

definition move_inplace :: "state \<Rightarrow> ref \<Rightarrow> string \<Rightarrow> ((error + unit) \<times> state) option" where
  "move_inplace s r target =
     (case heap s r of
        None \<Rightarrow> None
      | Some b \<Rightarrow>
          if view_desc b \<noteq> None then Some (Inl AssertionError, s)
          else if ptr_type b = target then Some (Inr (), s)
          else
            (case spillable s r of
               None \<Rightarrow> None
             | Some sp \<Rightarrow>
                 if \<not> sp then Some (Inl Unspillable, s)
                 else if ptr_type b = ''gpu'' \<and> target = ''cpu'' then
                   (if size_f b < 0 then Some (Inl (ValueError ''negative count''), s)
                    else
                      Some (Inr (),
                        s\<lparr>heap := (heap s)(r \<mapsto>
                            b\<lparr>ptr_memoryview :=
                                 Some (bytes_view
                                         (copy_ptr_to_host (dmem s) (ptr_f b) (nat (size_f b)))),
                              ptr_f := 0,
                              owner_f := Owner_None,
                              ptr_type := target\<rparr>)\<rparr>))
                 else if ptr_type b = ''cpu'' \<and> target = ''gpu'' then
                   (case ptr_memoryview b of
                      None \<Rightarrow> Some (Inl (KeyError ''memoryview''), s)
                    | Some mv \<Rightarrow>
                        (case to_device s (tobytes mv) of
                           (addr, s1) \<Rightarrow>
                             Some (Inr (),
                               s1\<lparr>heap := (heap s1)(r \<mapsto>
                                   b\<lparr>ptr_memoryview := None,
                                     ptr_f := addr,
                                     size_f := int (nbytes mv),
                                     owner_f := Owner_DeviceBuffer addr,
                                     ptr_type := target\<rparr>)\<rparr>)))
                 else Some (Inl UnknownTarget, s)))"

section \<open>The spill manager\<close>

text \<open>
  \<open>is_overlapping\<close> is part of the buffer class and is what the manager's address-range
  index asks. A view has no lock (\<open>_lock\<close> is \<open>None\<close>), so entering it fails.
\<close>

definition is_overlapping :: "state \<Rightarrow> ref \<Rightarrow> int \<Rightarrow> int \<Rightarrow> (error + bool) option" where
  "is_overlapping s r p n =
     (case heap s r of
        None \<Rightarrow> None
      | Some b \<Rightarrow>
          if view_desc b \<noteq> None then Some (Inl AttributeError)
          else
            (case is_spilled s r of
               None \<Rightarrow> None
             | Some sp \<Rightarrow> Some (Inr (\<not> sp \<and> p + n > ptr_f b \<and> ptr_f b + size_f b > p))))"

text \<open>
  Modelled from the spec: the class \<open>SpillManager\<close> is not among the sources. Its three
  entry points follow the manager collaboration contract: \<open>add\<close> records a buffer as a
  spill candidate and is idempotent; \<open>lookup_address_range\<close> returns an already-known
  base buffer whose address range meets the query, or none; \<open>spill_to_device_limit\<close>
  spills registered, currently spillable, device-resident buffers with
  \<open>move_inplace(target="cpu")\<close>. Which buffers the budget selects is the manager's policy;
  it is a parameter that proposes candidates from the current state, so every theorem
  holds for every policy.
\<close>

type_synonym policy = "state \<Rightarrow> ref list"

definition manager_add :: "state \<Rightarrow> ref \<Rightarrow> state" where
  "manager_add s r = (if r \<in> set (registered s) then s else s\<lparr>registered := registered s @ [r]\<rparr>)"

definition lookup_address_range :: "state \<Rightarrow> int \<Rightarrow> int \<Rightarrow> ref option" where
  "lookup_address_range s p n =
     find (\<lambda>r. is_overlapping s r p n = Some (Inr True)) (registered s)"

fun spill_each :: "state \<Rightarrow> ref list \<Rightarrow> state option" where
  "spill_each s [] = Some s"
| "spill_each s (r # rs) =
     (if r \<in> set (registered s) \<and> is_spilled s r = Some False \<and> spillable s r = Some True
      then
        (case move_inplace s r ''cpu'' of
           None \<Rightarrow> None
         | Some (res, s') \<Rightarrow> spill_each s' rs)
      else spill_each s rs)"

definition spill_to_device_limit :: "policy \<Rightarrow> state \<Rightarrow> state option" where
  "spill_to_device_limit pol s = spill_each s (pol s)"

section \<open>Permanent exposure and transient pinning\<close>

text \<open>The body of the property \<open>ptr\<close> for a buffer that is not a view.\<close>

definition ptr_base :: "policy \<Rightarrow> state \<Rightarrow> ref \<Rightarrow> ((error + int) \<times> state) option" where
  "ptr_base pol s r =
     (case spill_to_device_limit pol s of
        None \<Rightarrow> None
      | Some s1 \<Rightarrow>
          (case move_inplace s1 r ''gpu'' of
             None \<Rightarrow> None
           | Some (Inl e, s2) \<Rightarrow> Some (Inl e, s2)
           | Some (Inr u, s2) \<Rightarrow>
               (case heap s2 r of
                  None \<Rightarrow> None
                | Some b \<Rightarrow>
                    (case time_monotonic s2 of
                       (t, s3) \<Rightarrow>
                         Some (Inr (ptr_f b),
                           s3\<lparr>heap := (heap s3)(r \<mapsto>
                               b\<lparr>exposed_f := True, last_accessed_f := t\<rparr>)\<rparr>)))))"

definition add_offset :: "int \<Rightarrow> (error + int) \<times> state \<Rightarrow> ((error + int) \<times> state) option" where
  "add_offset off out =
     (case out of
        (Inl e, s') \<Rightarrow> Some (Inl e, s')
      | (Inr p, s') \<Rightarrow> Some (Inr (p + off), s'))"

partial_function (option) ptr :: "policy \<Rightarrow> state \<Rightarrow> ref \<Rightarrow> ((error + int) \<times> state) option" where
  "ptr pol s r =
     (case heap s r of
        None \<Rightarrow> None
      | Some b \<Rightarrow>
          (case view_desc b of
             Some (base, off) \<Rightarrow> Option.bind (ptr pol s base) (add_offset off)
           | None \<Rightarrow> ptr_base pol s r))"

text \<open>
  The prologue shared by \<open>ptr_raw\<close> and \<open>memoryview\<close>: the base buffer and the offset,
  the latter converted to \<open>size_t\<close>, which a negative offset fails. An offset is
  an index into a memory region and so stays below the upper end of \<open>size_t\<close>.
\<close>

definition get_base :: "ref \<Rightarrow> buffer \<Rightarrow> error + (ref \<times> int)" where
  "get_base r b =
     (case view_desc b of
        None \<Rightarrow> Inr (r, 0)
      | Some (base, off) \<Rightarrow>
          if off < 0 then Inl OverflowError else Inr (base, off))"

text \<open>
  \<open>ptr_raw\<close>: the token is a copy of the base's expose counter, appended to the
  collection \<open>k\<close> that the caller supplies. An index that names no collection is
  treated like a reference that the store does not hold.
\<close>

definition ptr_raw :: "state \<Rightarrow> ref \<Rightarrow> nat \<Rightarrow> ((error + int) \<times> state) option" where
  "ptr_raw s r k =
     (case heap s r of
        None \<Rightarrow> None
      | Some b \<Rightarrow>
          if k \<ge> length (owners s) then None
          else
            (case get_base r b of
               Inl e \<Rightarrow> Some (Inl e, s)
             | Inr (base, off) \<Rightarrow>
                 (case heap s base of
                    None \<Rightarrow> None
                  | Some bb0 \<Rightarrow>
                      if view_desc bb0 \<noteq> None then Some (Inl AttributeError, s)
                      else
                        (case move_inplace s base ''gpu'' of
                           None \<Rightarrow> None
                         | Some (Inl e, s1) \<Rightarrow> Some (Inl e, s1)
                         | Some (Inr u, s1) \<Rightarrow>
                             (case heap s1 base of
                                None \<Rightarrow> None
                              | Some bb \<Rightarrow>
                                  (case time_monotonic s1 of
                                     (t, s2) \<Rightarrow>
                                       Some (Inr (ptr_f bb + off),
                                         s2\<lparr>heap := (heap s2)(base \<mapsto> bb\<lparr>last_accessed_f := t\<rparr>),
                                            owners := (owners s2)[k := owners s2 ! k @ [base]]\<rparr>)))))))"

text \<open>The caller's side of the token protocol: a new empty collection, and the
  destruction of a collection, which releases every token in it.\<close>

definition new_owners :: "state \<Rightarrow> nat \<times> state" where
  "new_owners s = (length (owners s), s\<lparr>owners := owners s @ [[]]\<rparr>)"

definition drop_owners :: "state \<Rightarrow> nat \<Rightarrow> state" where
  "drop_owners s k = s\<lparr>owners := (owners s)[k := []]\<rparr>"

section \<open>Slicing\<close>

definition create_view :: "state \<Rightarrow> ref \<Rightarrow> int \<Rightarrow> int \<Rightarrow> ((error + ref) \<times> state) option" where
  "create_view s buf sz offset =
     (case heap s buf of
        None \<Rightarrow> None
      | Some b \<Rightarrow>
          if sz < 0 then Some (Inl (ValueError ''size cannot be negative''), s)
          else
            (case (case view_desc b of None \<Rightarrow> (buf, 0) | Some (base, base_off) \<Rightarrow> (base, base_off)) of
               (base, base_offset) \<Rightarrow>
                 Some (Inr (next_ref s),
                   s\<lparr>heap := (heap s)(next_ref s \<mapsto>
                       \<lparr>exposed_f = False, last_accessed_f = 0,
                        view_desc = Some (base, base_offset + offset),
                        ptr_type = [], ptr_memoryview = None, ptr_f = 0,
                        size_f = sz, owner_f = Owner_Base base\<rparr>),
                     next_ref := Suc (next_ref s)\<rparr>)))"

definition getitem :: "state \<Rightarrow> ref \<Rightarrow> slice \<Rightarrow> ((error + ref) \<times> state) option" where
  "getitem s r key =
     (case heap s r of
        None \<Rightarrow> None
      | Some b \<Rightarrow>
          (case slice_indices key (size_f b) of
             Inl e \<Rightarrow> Some (Inl e, s)
           | Inr (a, z, st) \<Rightarrow>
               if st \<noteq> 1 then Some (Inl (ValueError ''slice must be C-contiguous''), s)
               else create_view s r (z - a) a))"

section \<open>Host materialization\<close>

text \<open>
  \<open>memoryview\<close>: for a spillable base the result is a slice of the host storage,
  \<open>base._ptr_desc["memoryview"][offset : offset + self.size]\<close>, which Python takes by
  entry although \<open>offset\<close> and \<open>size\<close> count bytes; otherwise it is a new
  \<open>bytearray\<close> filled from device memory.
\<close>

definition memoryview :: "state \<Rightarrow> ref \<Rightarrow> ((error + hostmem) \<times> state) option" where
  "memoryview s r =
     (case heap s r of
        None \<Rightarrow> None
      | Some b \<Rightarrow>
          (case get_base r b of
             Inl e \<Rightarrow> Some (Inl e, s)
           | Inr (base, off) \<Rightarrow>
               (case heap s base of
                  None \<Rightarrow> None
                | Some bb0 \<Rightarrow>
                    if view_desc bb0 \<noteq> None then Some (Inl AttributeError, s)
                    else
                      (case spillable s base of
                         None \<Rightarrow> None
                       | Some True \<Rightarrow>
                           (case move_inplace s base ''cpu'' of
                              None \<Rightarrow> None
                            | Some (Inl e, s1) \<Rightarrow> Some (Inl e, s1)
                            | Some (Inr u, s1) \<Rightarrow>
                                (case heap s1 base of
                                   None \<Rightarrow> None
                                 | Some bb \<Rightarrow>
                                     (case ptr_memoryview bb of
                                        None \<Rightarrow> Some (Inl (KeyError ''memoryview''), s1)
                                      | Some mv \<Rightarrow>
                                          (case mv_getslice mv off (off + size_f b) of
                                             Inl e \<Rightarrow> Some (Inl e, s1)
                                           | Inr m \<Rightarrow> Some (Inr m, s1)))))
                       | Some False \<Rightarrow>
                           if ptr_type bb0 \<noteq> ''gpu'' then Some (Inl AssertionError, s)
                           else if size_f b < 0 then Some (Inl (ValueError ''negative count''), s)
                           else
                             Some (Inr (bytes_view
                                          (copy_ptr_to_host (dmem s) (ptr_f bb0 + off)
                                             (nat (size_f b)))),
                                   s)))))"

text \<open>
  The bytes a buffer denotes: the \<open>size\<close> bytes from byte \<open>offset\<close> of the device
  memory or of the host storage of its base. This is not a method of the class; it is
  what the byte content of a buffer means in the statements below.
\<close>

definition contents :: "state \<Rightarrow> ref \<Rightarrow> byte list option" where
  "contents s r =
     (case heap s r of
        None \<Rightarrow> None
      | Some b \<Rightarrow>
          (case get_base r b of
             Inl e \<Rightarrow> None
           | Inr (base, off) \<Rightarrow>
               (case heap s base of
                  None \<Rightarrow> None
                | Some bb \<Rightarrow>
                    if ptr_type bb = ''gpu''
                    then Some (copy_ptr_to_host (dmem s) (ptr_f bb + off) (nat (size_f b)))
                    else map_option (\<lambda>mv. py_getslice (tobytes mv) off (off + size_f b))
                           (ptr_memoryview bb))))"

section \<open>Construction\<close>

text \<open>
  The data a buffer is made from: another \<open>SpillableBuffer\<close>, an \<open>rmm.DeviceBuffer\<close>
  (address and size), an object with \<open>__cuda_array_interface__\<close> (the address and size
  that \<open>get_ptr_and_size\<close> reads from it), or host memory (whether it is C-contiguous,
  and what \<open>memoryview(data)\<close> presents). \<open>numpy.array(data)\<close> is taken to yield a
  contiguous host copy of its bytes.
\<close>

datatype source =
    SrcSpillable ref
  | SrcDeviceBuffer int nat
  | SrcCudaArray int nat
  | SrcHost bool hostmem

text \<open>The first part of \<open>__init__\<close>: the fields of the new object.\<close>

definition init_fields :: "state \<Rightarrow> source \<Rightarrow> bool \<Rightarrow> (error + buffer) \<times> state" where
  "init_fields s data exposed_arg =
     (case time_monotonic s of
        (t, s1) \<Rightarrow>
          (let b0 = \<lparr>exposed_f = exposed_arg, last_accessed_f = t, view_desc = None,
                     ptr_type = [], ptr_memoryview = None, ptr_f = 0, size_f = 0,
                     owner_f = Owner_None\<rparr>
           in case data of
                SrcSpillable x \<Rightarrow>
                  (Inl (ValueError ''Cannot create from a SpillableBuffer, use __getitem__ to create a view''), s1)
              | SrcDeviceBuffer p n \<Rightarrow>
                  (Inr (b0\<lparr>ptr_type := ''gpu'', ptr_f := p, size_f := int n, owner_f := Owner_Data\<rparr>), s1)
              | SrcCudaArray p n \<Rightarrow>
                  (Inr (b0\<lparr>ptr_type := ''gpu'', ptr_f := p, size_f := int n, owner_f := Owner_Data\<rparr>), s1)
              | SrcHost contiguous hm \<Rightarrow>
                  if exposed_arg then
                    (case to_device s1 (tobytes hm) of
                       (addr, s2) \<Rightarrow>
                         (Inr (b0\<lparr>ptr_type := ''gpu'', ptr_f := addr, size_f := int (nbytes hm),
                                  owner_f := Owner_DeviceBuffer addr, exposed_f := False\<rparr>), s2))
                  else if \<not> contiguous then
                    (Inl (ValueError ''memoryview must be C-contiguous''), s1)
                  else
                    (Inr (b0\<lparr>ptr_type := ''cpu'', ptr_memoryview := Some hm, ptr_f := 0,
                             size_f := int (nbytes hm), owner_f := Owner_None\<rparr>), s1)))"

text \<open>The second part: the manager is asked about the address range; a known buffer
  there is exposed by reading its \<open>ptr\<close>, otherwise an unexposed new buffer is added.\<close>

definition notify_manager :: "policy \<Rightarrow> state \<Rightarrow> ref \<Rightarrow> buffer \<Rightarrow> ((error + unit) \<times> state) option" where
  "notify_manager pol s r b =
     (case lookup_address_range s (ptr_f b) (size_f b) of
        Some base \<Rightarrow>
          (case ptr pol s base of
             None \<Rightarrow> None
           | Some (Inl e, s') \<Rightarrow> Some (Inl e, s')
           | Some (Inr p, s') \<Rightarrow> Some (Inr (), s'))
      | None \<Rightarrow> Some (Inr (), if \<not> exposed_f b then manager_add s r else s))"

text \<open>\<open>__init__\<close> on a new object. When it raises, the object is never returned and is
  dropped from the store.\<close>

definition init :: "policy \<Rightarrow> state \<Rightarrow> source \<Rightarrow> bool \<Rightarrow> ((error + ref) \<times> state) option" where
  "init pol s data exposed_arg =
     (case init_fields s data exposed_arg of
        (Inl e, s1) \<Rightarrow> Some (Inl e, s1)
      | (Inr b, s1) \<Rightarrow>
          (case notify_manager pol
                  (s1\<lparr>heap := (heap s1)(next_ref s1 \<mapsto> b), next_ref := Suc (next_ref s1)\<rparr>)
                  (next_ref s1) b of
             None \<Rightarrow> None
           | Some (Inl e, s3) \<Rightarrow> Some (Inl e, s3\<lparr>heap := (heap s3)(next_ref s1 := None)\<rparr>)
           | Some (Inr u, s3) \<Rightarrow>
               (case spill_to_device_limit pol s3 of
                  None \<Rightarrow> None
                | Some s4 \<Rightarrow> Some (Inr (next_ref s1), s4))))"

text \<open>The constructor up to, and without, its last statement, the closing call of
  \<open>spill_to_device_limit\<close>.\<close>

definition init_open :: "policy \<Rightarrow> state \<Rightarrow> source \<Rightarrow> bool \<Rightarrow> ((error + ref) \<times> state) option" where
  "init_open pol s data exposed_arg =
     (case init_fields s data exposed_arg of
        (Inl e, s1) \<Rightarrow> Some (Inl e, s1)
      | (Inr b, s1) \<Rightarrow>
          (case notify_manager pol
                  (s1\<lparr>heap := (heap s1)(next_ref s1 \<mapsto> b), next_ref := Suc (next_ref s1)\<rparr>)
                  (next_ref s1) b of
             None \<Rightarrow> None
           | Some (Inl e, s3) \<Rightarrow> Some (Inl e, s3\<lparr>heap := (heap s3)(next_ref s1 := None)\<rparr>)
           | Some (Inr u, s3) \<Rightarrow> Some (Inr (next_ref s1), s3)))"

section \<open>Serialization\<close>

record header =
  type_serialized :: string
  frame_count :: int

definition serialize :: "state \<Rightarrow> ref \<Rightarrow> ((error + header \<times> source list) \<times> state) option" where
  "serialize s r =
     (case heap s r of
        None \<Rightarrow> None
      | Some b \<Rightarrow>
          (case heap s (case view_desc b of None \<Rightarrow> r | Some (base, off) \<Rightarrow> base) of
             None \<Rightarrow> None
           | Some bb \<Rightarrow>
               if view_desc bb \<noteq> None then Some (Inl AttributeError, s)
               else
                 (case is_spilled s r of
                    None \<Rightarrow> None
                  | Some True \<Rightarrow>
                      (case memoryview s r of
                         None \<Rightarrow> None
                       | Some (Inl e, s1) \<Rightarrow> Some (Inl e, s1)
                       | Some (Inr mv, s1) \<Rightarrow>
                           Some (Inr (\<lparr>type_serialized = ''SpillableBuffer'', frame_count = 1\<rparr>,
                                      [SrcHost True mv]), s1))
                  | Some False \<Rightarrow>
                      Some (Inr (\<lparr>type_serialized = ''SpillableBuffer'', frame_count = 1\<rparr>,
                                 [SrcSpillable r]), s))))"

definition FrameCountMismatch :: error where
  "FrameCountMismatch = ValueError ''Deserializing a SpillableBuffer expect a single frame''"

text \<open>\<open>deserialize\<close>: the header's count is checked, then \<open>frame, = frames\<close> unpacks the
  list, which raises \<open>ValueError\<close> unless it has one element.\<close>

definition deserialize :: "policy \<Rightarrow> state \<Rightarrow> header \<Rightarrow> source list \<Rightarrow> ((error + ref) \<times> state) option" where
  "deserialize pol s hdr frames =
     (if frame_count hdr \<noteq> 1 then Some (Inl FrameCountMismatch, s)
      else
        (case frames of
           [] \<Rightarrow> Some (Inl (ValueError ''not enough values to unpack''), s)
         | frame # rest \<Rightarrow>
             if rest \<noteq> [] then Some (Inl (ValueError ''too many values to unpack''), s)
             else
               (case frame of
                  SrcSpillable x \<Rightarrow> (if heap s x = None then None else Some (Inr x, s))
                | SrcDeviceBuffer p n \<Rightarrow> init pol s frame False
                | SrcCudaArray p n \<Rightarrow> init pol s frame False
                | SrcHost c bs \<Rightarrow> init pol s frame False)))"

section \<open>Sequences of operations\<close>

datatype op =
    Op_init source bool
  | Op_move_inplace ref string
  | Op_ptr ref
  | Op_ptr_raw ref nat
  | Op_new_owners
  | Op_drop_owners nat
  | Op_memoryview ref
  | Op_getitem ref slice
  | Op_serialize ref
  | Op_deserialize header "source list"
  | Op_spill_to_device_limit

text \<open>The state an operation leaves, whether it returned or raised.\<close>

fun step :: "policy \<Rightarrow> op \<Rightarrow> state \<Rightarrow> state option" where
  "step pol (Op_init data e) s = map_option snd (init pol s data e)"
| "step pol (Op_move_inplace r target) s = map_option snd (move_inplace s r target)"
| "step pol (Op_ptr r) s = map_option snd (ptr pol s r)"
| "step pol (Op_ptr_raw r k) s = map_option snd (ptr_raw s r k)"
| "step pol Op_new_owners s = Some (snd (new_owners s))"
| "step pol (Op_drop_owners k) s = Some (drop_owners s k)"
| "step pol (Op_memoryview r) s = map_option snd (memoryview s r)"
| "step pol (Op_getitem r key) s = map_option snd (getitem s r key)"
| "step pol (Op_serialize r) s = map_option snd (serialize s r)"
| "step pol (Op_deserialize hdr frames) s = map_option snd (deserialize pol s hdr frames)"
| "step pol Op_spill_to_device_limit s = spill_to_device_limit pol s"

fun run :: "policy \<Rightarrow> op list \<Rightarrow> state \<Rightarrow> state option" where
  "run pol [] s = Some s"
| "run pol (x # xs) s = (case step pol x s of None \<Rightarrow> None | Some s' \<Rightarrow> run pol xs s')"

definition initial :: "(int \<Rightarrow> byte) \<Rightarrow> int \<Rightarrow> state" where
  "initial dm a =
     \<lparr>heap = (\<lambda>r. None), next_ref = 0, dmem = dm, alloc_next = a, clock = 0,
      owners = [], registered = []\<rparr>"

section \<open>Concrete settings\<close>

text \<open>A device memory of zero bytes; a manager that never spills, and one that
  proposes every registered buffer (a device limit of zero).\<close>

definition zero_mem :: "int \<Rightarrow> byte" where
  "zero_mem a = 0"

definition no_spill :: policy where
  "no_spill s = []"

definition spill_all :: policy where
  "spill_all s = registered s"

definition slice_of :: "int \<Rightarrow> int \<Rightarrow> slice" where
  "slice_of a z = \<lparr>start = Some a, stop = Some z, step = None\<rparr>"

text \<open>A device buffer of eight bytes that has been pinned once through collection 0.\<close>

definition pinned_ops :: "op list" where
  "pinned_ops = [Op_init (SrcDeviceBuffer 4096 8) False, Op_new_owners, Op_ptr_raw 0 0]"

definition pinned_state :: state where
  "pinned_state = the (run no_spill pinned_ops (initial zero_mem 0))"

text \<open>A host buffer of three bytes, exposed by reading \<open>ptr\<close>, with a view of its
  last two bytes.\<close>

definition exposed_ops :: "op list" where
  "exposed_ops = [Op_init (SrcHost True (bytes_view [1, 2, 3])) False, Op_ptr 0, Op_getitem 0 (slice_of 1 3)]"

definition exposed_state :: state where
  "exposed_state = the (run no_spill exposed_ops (initial zero_mem 0))"

text \<open>A spilled host buffer of three bytes with a view of its last two bytes.\<close>

definition spilled_ops :: "op list" where
  "spilled_ops = [Op_init (SrcHost True (bytes_view [1, 2, 3])) False, Op_getitem 0 (slice_of 1 3)]"

definition spilled_state :: state where
  "spilled_state = the (run no_spill spilled_ops (initial zero_mem 0))"

text \<open>Operations of every kind that does not construct a buffer, applied to the
  exposed buffer and its view.\<close>

definition latch_ops :: "op list" where
  "latch_ops = [Op_memoryview 1, Op_move_inplace 0 ''cpu'', Op_new_owners, Op_ptr_raw 1 0,
                Op_drop_owners 0, Op_getitem 1 (slice_of 0 1), Op_serialize 0,
                Op_spill_to_device_limit]"

text \<open>A device buffer of 1024 bytes.\<close>

definition kib_ops :: "op list" where
  "kib_ops = [Op_init (SrcDeviceBuffer 4096 1024) False]"

definition kib_state :: state where
  "kib_state = the (run no_spill kib_ops (initial zero_mem 0))"

text \<open>A spilled host buffer of three bytes and an empty token collection.\<close>

definition unpinned_ops :: "op list" where
  "unpinned_ops = [Op_init (SrcHost True (bytes_view [1, 2, 3])) False, Op_new_owners]"

definition unpinned_state :: state where
  "unpinned_state = the (run no_spill unpinned_ops (initial zero_mem 0))"

text \<open>The state after \<open>ptr_raw\<close> on that buffer with collection 0, and operations
  that leave the collection alive.\<close>

definition token_state :: state where
  "token_state = snd (the (ptr_raw unpinned_state 0 0))"

definition token_ops :: "op list" where
  "token_ops = [Op_memoryview 0, Op_move_inplace 0 ''cpu'', Op_spill_to_device_limit,
                Op_getitem 0 (slice_of 0 2), Op_new_owners, Op_drop_owners 1]"




text \<open>A manager that proposes the buffer it was told about first.\<close>

definition spill_first :: policy where
  "spill_first s = take 1 (registered s)"

text \<open>The state after that manager has seen the construction of the device buffer
  of 1024 bytes, which it spills.\<close>

definition first_state :: state where
  "first_state = the (run spill_first kib_ops (initial zero_mem 0))"

section \<open>Well-formed states\<close>

text \<open>
  The invariant of the store: references are below the allocation counter; a view names
  a base buffer that is not itself a view and lies within it; a base buffer is on the
  device, or on the host with host storage of its size and neither exposed nor pinned;
  tokens name existing objects.
\<close>

definition base_ok :: "buffer \<Rightarrow> bool" where
  "base_ok b \<longleftrightarrow>
     0 \<le> size_f b \<and>
     (ptr_type b = ''gpu'' \<or>
      (ptr_type b = ''cpu'' \<and> \<not> exposed_f b \<and>
       (case ptr_memoryview b of None \<Rightarrow> False | Some mv \<Rightarrow> int (nbytes mv) = size_f b)))"

definition view_ok :: "state \<Rightarrow> buffer \<Rightarrow> ref \<Rightarrow> int \<Rightarrow> bool" where
  "view_ok s b base off \<longleftrightarrow>
     (case heap s base of
        None \<Rightarrow> False
      | Some bb \<Rightarrow> view_desc bb = None \<and> 0 \<le> off \<and> 0 \<le> size_f b \<and> off + size_f b \<le> size_f bb)"

definition pinned :: "state \<Rightarrow> ref \<Rightarrow> bool" where
  "pinned s r \<longleftrightarrow> r \<in> set (concat (owners s))"

definition wf_state :: "state \<Rightarrow> bool" where
  "wf_state s \<longleftrightarrow>
     (\<forall>r b. heap s r = Some b \<longrightarrow> r < next_ref s) \<and>
     (\<forall>r b. heap s r = Some b \<longrightarrow> view_desc b = None \<longrightarrow>
        base_ok b \<and> (pinned s r \<longrightarrow> ptr_type b = ''gpu'')) \<and>
     (\<forall>r b base off. heap s r = Some b \<longrightarrow> view_desc b = Some (base, off) \<longrightarrow>
        view_ok s b base off) \<and>
     (\<forall>r. pinned s r \<longrightarrow> r < next_ref s)"

text \<open>Collection \<open>k\<close> is alive and holds a token of base buffer \<open>base\<close>.\<close>

definition holds_token :: "state \<Rightarrow> nat \<Rightarrow> ref \<Rightarrow> bool" where
  "holds_token s k base \<longleftrightarrow> k < length (owners s) \<and> base \<in> set (owners s ! k)"

text \<open>The manager knows only buffers that exist.\<close>

definition reg_ok :: "state \<Rightarrow> bool" where
  "reg_ok s \<longleftrightarrow> (\<forall>x\<in>set (registered s). heap s x \<noteq> None)"

text \<open>What an operation may do to the objects that exist: each keeps its view
  descriptor and its size, and an exposed flag that is set stays set.\<close>

definition ext :: "state \<Rightarrow> state \<Rightarrow> bool" where
  "ext s s' \<longleftrightarrow>
     (\<forall>r b. heap s r = Some b \<longrightarrow>
        (\<exists>b'. heap s' r = Some b' \<and> view_desc b' = view_desc b \<and> size_f b' = size_f b \<and>
              (exposed_f b \<longrightarrow> exposed_f b')))"


text \<open>Device memory below the allocator's next free address is left as it was.\<close>

definition dmem_frame :: "state \<Rightarrow> state \<Rightarrow> bool" where
  "dmem_frame s s' \<longleftrightarrow>
     alloc_next s \<le> alloc_next s' \<and> (\<forall>x. x < alloc_next s \<longrightarrow> dmem s' x = dmem s x)"

section \<open>Evaluation\<close>

lemmas eval_defs =
  init_def init_fields_def time_monotonic_def to_device_def notify_manager_def
  lookup_address_range_def manager_add_def spill_to_device_limit_def initial_def
  is_overlapping_def move_inplace_def ptr_base_def add_offset_def get_base_def ptr_raw_def
  new_owners_def drop_owners_def slice_indices_def py_getslice_def create_view_def getitem_def
  memoryview_def serialize_def deserialize_def use_count_def size_p_def
  zero_mem_def no_spill_def spill_all_def slice_of_def copy_ptr_to_host_def dmem_write_def
  bytes_view_def
  is_spilled.simps exposed.simps spillable.simps expose_counter.simps ptr.simps

section \<open>Facts about host memory\<close>

lemma length_tobytes [simp]: "length (tobytes m) = nbytes m"
  by (cases m) simp_all

lemma tobytes_bytes_view [simp]: "tobytes (bytes_view bs) = bs"
  by (induction bs) (simp_all add: bytes_view_def)

lemma nbytes_bytes_view [simp]: "nbytes (bytes_view bs) = length bs"
  using length_tobytes[of "bytes_view bs"] by (simp del: length_tobytes)

section \<open>Facts about the properties\<close>

lemma spillable_base:
  "heap s r = Some b \<Longrightarrow> view_desc b = None \<Longrightarrow>
   spillable s r = Some (\<not> exposed_f b \<and> use_count s r = 1)"
  by (subst spillable.simps) simp

lemma ext_refl: "ext s s" by (simp add: ext_def)
lemma ext_trans: "ext s s' \<Longrightarrow> ext s' s'' \<Longrightarrow> ext s s''"
  unfolding ext_def by fastforce

lemma is_spilled_base: "heap s r = Some b \<Longrightarrow> view_desc b = None \<Longrightarrow> is_spilled s r = Some (ptr_type b \<noteq> ''gpu'')"
  by (subst is_spilled.simps) simp
lemma exposed_base: "heap s r = Some b \<Longrightarrow> view_desc b = None \<Longrightarrow> exposed s r = Some (exposed_f b)"
  by (subst exposed.simps) simp
lemma expose_counter_base: "heap s r = Some b \<Longrightarrow> view_desc b = None \<Longrightarrow> expose_counter s r = Some (use_count s r)"
  by (subst expose_counter.simps) simp
lemma is_spilled_view: "heap s r = Some b \<Longrightarrow> view_desc b = Some (base, off) \<Longrightarrow> is_spilled s r = is_spilled s base"
  by (subst is_spilled.simps) simp
lemma exposed_view: "heap s r = Some b \<Longrightarrow> view_desc b = Some (base, off) \<Longrightarrow> exposed s r = exposed s base"
  by (subst exposed.simps) simp
lemma expose_counter_view: "heap s r = Some b \<Longrightarrow> view_desc b = Some (base, off) \<Longrightarrow> expose_counter s r = expose_counter s base"
  by (subst expose_counter.simps) simp
lemma spillable_view: "heap s r = Some b \<Longrightarrow> view_desc b = Some (base, off) \<Longrightarrow> spillable s r = spillable s base"
  by (subst spillable.simps) simp

lemma wf_lt: "wf_state s \<Longrightarrow> heap s r = Some b \<Longrightarrow> r < next_ref s"
  by (auto simp: wf_state_def)
lemma wf_fresh: "wf_state s \<Longrightarrow> heap s (next_ref s) = None"
  by (cases "heap s (next_ref s)") (auto dest: wf_lt)
lemma wf_base: "wf_state s \<Longrightarrow> heap s r = Some b \<Longrightarrow> view_desc b = None \<Longrightarrow> base_ok b \<and> (pinned s r \<longrightarrow> ptr_type b = ''gpu'')"
  by (auto simp: wf_state_def)
lemma wf_view: "wf_state s \<Longrightarrow> heap s r = Some b \<Longrightarrow> view_desc b = Some (base, off) \<Longrightarrow> view_ok s b base off"
  by (fastforce simp: wf_state_def)
lemma wf_pinned: "wf_state s \<Longrightarrow> pinned s r \<Longrightarrow> r < next_ref s"
  by (auto simp: wf_state_def)
lemma view_okD: "view_ok s b base off \<Longrightarrow> \<exists>bb. heap s base = Some bb \<and> view_desc bb = None \<and> 0 \<le> off \<and> 0 \<le> size_f b \<and> off + size_f b \<le> size_f bb"
  by (auto simp: view_ok_def split: option.splits)

lemma use_count_pinned: "use_count s r = Suc 0 \<longleftrightarrow> \<not> pinned s r"
  by (simp add: use_count_def pinned_def count_list_0_iff)

lemma spillable_base_pinned:
  "heap s r = Some b \<Longrightarrow> view_desc b = None \<Longrightarrow>
   spillable s r = Some (\<not> exposed_f b \<and> \<not> pinned s r)"
  by (simp add: spillable_base use_count_pinned)

lemma move_inplace_cases:
  assumes "move_inplace s r t = Some (res, s')"
  obtains (same) "s' = s"
  | (to_cpu) b where "heap s r = Some b" "view_desc b = None" "ptr_type b = ''gpu''" "t = ''cpu''"
      "\<not> exposed_f b" "\<not> pinned s r" "0 \<le> size_f b" "res = Inr ()"
      "s' = s\<lparr>heap := (heap s)(r \<mapsto> b\<lparr>ptr_memoryview := Some (bytes_view (copy_ptr_to_host (dmem s) (ptr_f b) (nat (size_f b)))),
                              ptr_f := 0, owner_f := Owner_None, ptr_type := ''cpu''\<rparr>)\<rparr>"
  | (to_gpu) b mv where "heap s r = Some b" "view_desc b = None" "ptr_type b = ''cpu''" "t = ''gpu''"
      "\<not> exposed_f b" "\<not> pinned s r" "ptr_memoryview b = Some mv" "res = Inr ()"
      "s' = s\<lparr>dmem := dmem_write (dmem s) (alloc_next s) (tobytes mv),
              alloc_next := alloc_next s + int (length (tobytes mv)),
              heap := (heap s)(r \<mapsto> b\<lparr>ptr_memoryview := None, ptr_f := alloc_next s, size_f := int (nbytes mv),
                     owner_f := Owner_DeviceBuffer (alloc_next s), ptr_type := ''gpu''\<rparr>)\<rparr>"
proof -
  from assms obtain b where hb: "heap s r = Some b"
    by (auto simp: move_inplace_def split: option.splits)
  show thesis
  proof (cases "view_desc b = None")
    case False
    with assms hb have "s' = s" by (auto simp: move_inplace_def)
    then show thesis by (rule same)
  next
    case vn: True
    note sp = spillable_base_pinned[OF hb vn]
    show thesis
    proof (cases "ptr_type b = t \<or> exposed_f b \<or> pinned s r")
      case True
      with assms hb vn sp have "s' = s"
        by (auto simp: move_inplace_def split: if_splits)
      then show thesis by (rule same)
    next
      case nt: False
      show thesis
      proof (cases "ptr_type b = ''gpu'' \<and> t = ''cpu''")
        case True
        show thesis
        proof (cases "size_f b < 0")
          case True
          with assms hb vn sp nt \<open>ptr_type b = ''gpu'' \<and> t = ''cpu''\<close> have "s' = s"
            by (simp add: move_inplace_def)
          then show thesis by (rule same)
        next
          case False
          with assms hb vn sp nt True show thesis
            by (intro to_cpu[of b]) (simp_all add: move_inplace_def)
        qed
      next
        case ng: False
        show thesis
        proof (cases "ptr_type b = ''cpu'' \<and> t = ''gpu''")
          case True
          show thesis
          proof (cases "ptr_memoryview b")
            case None
            with assms hb vn sp nt True have "s' = s"
              by (simp add: move_inplace_def)
            then show thesis by (rule same)
          next
            case (Some mv)
            with assms hb vn sp nt True show thesis
              by (intro to_gpu[of b mv]) (simp_all add: move_inplace_def to_device_def)
          qed
        next
          case False
          with assms hb vn sp nt ng have "s' = s"
            by (auto simp: move_inplace_def)
          then show thesis by (rule same)
        qed
      qed
    qed
  qed
qed


lemma wf_cong:
  "heap s' = heap s \<Longrightarrow> next_ref s' = next_ref s \<Longrightarrow> owners s' = owners s \<Longrightarrow> wf_state s' = wf_state s"
  by (simp add: wf_state_def pinned_def view_ok_def)

lemma ext_cong: "heap s' = heap s \<Longrightarrow> ext s s'"
  by (simp add: ext_def)

lemma wf_update_base:
  assumes "wf_state s" and "heap s r = Some b" and "view_desc b = None"
    and "view_desc b' = None" and "size_f b' = size_f b" and "base_ok b'"
    and "pinned s r \<longrightarrow> ptr_type b' = ''gpu''"
    and "heap s' = (heap s)(r \<mapsto> b')" and "next_ref s' = next_ref s" and "owners s' = owners s"
  shows "wf_state s'"
proof -
  have pin_eq: "\<And>x. pinned s' x = pinned s x" using assms by (simp add: pinned_def)
  show ?thesis
  unfolding wf_state_def pin_eq
proof (intro conjI allI impI)
  fix x bx assume "heap s' x = Some bx"
  with assms show "x < next_ref s'" by (auto dest: wf_lt split: if_splits)
next
  fix x bx assume "heap s' x = Some bx" "view_desc bx = None"
  with assms show "base_ok bx" by (auto dest: wf_base split: if_splits)
next
  fix x bx assume "heap s' x = Some bx" "view_desc bx = None" "pinned s x"
  with assms show "ptr_type bx = ''gpu''" by (auto dest: wf_base split: if_splits)
next
  fix x bx base off assume h: "heap s' x = Some bx" "view_desc bx = Some (base, off)"
  with assms have hx: "heap s x = Some bx" by (auto split: if_splits)
  from wf_view[OF assms(1) hx h(2)] have "view_ok s bx base off" .
  with assms show "view_ok s' bx base off" by (auto simp: view_ok_def split: option.splits)
next
  fix x assume "pinned s x"
  with assms show "x < next_ref s'" by (auto dest: wf_pinned)
qed
qed

lemma ext_update:
  assumes "heap s r = Some b" and "view_desc b' = view_desc b" and "size_f b' = size_f b"
    and "exposed_f b \<longrightarrow> exposed_f b'" and "heap s' = (heap s)(r \<mapsto> b')"
  shows "ext s s'"
  using assms by (auto simp: ext_def)

lemma move_inplace_wf:
  assumes "wf_state s" and "move_inplace s r t = Some (res, s')"
  shows "wf_state s' \<and> ext s s' \<and> owners s' = owners s \<and> next_ref s' = next_ref s \<and>
         registered s' = registered s \<and> clock s' = clock s"
  using assms(2)
proof (cases rule: move_inplace_cases)
  case same
  with assms show ?thesis by (simp add: ext_refl)
next
  case (to_cpu b)
  from wf_base[OF assms(1) to_cpu(1,2)] have ok: "base_ok b" by simp
  have "wf_state s'"
    by (rule wf_update_base[OF assms(1) to_cpu(1,2), where b' = "b\<lparr>ptr_memoryview := Some (bytes_view (copy_ptr_to_host (dmem s) (ptr_f b) (nat (size_f b)))),
                              ptr_f := 0, owner_f := Owner_None, ptr_type := ''cpu''\<rparr>"])
       (use to_cpu ok in \<open>simp_all add: base_ok_def copy_ptr_to_host_def\<close>)
  moreover have "ext s s'"
    by (rule ext_update[OF to_cpu(1), where b' = "b\<lparr>ptr_memoryview := Some (bytes_view (copy_ptr_to_host (dmem s) (ptr_f b) (nat (size_f b)))),
                              ptr_f := 0, owner_f := Owner_None, ptr_type := ''cpu''\<rparr>"])
       (use to_cpu in simp_all)
  ultimately show ?thesis using to_cpu by simp
next
  case (to_gpu b mv)
  from wf_base[OF assms(1) to_gpu(1,2)] have ok: "base_ok b" by simp
  with to_gpu have len: "int (nbytes mv) = size_f b" by (simp add: base_ok_def)
  have "wf_state s'"
    by (rule wf_update_base[OF assms(1) to_gpu(1,2), where b' = "b\<lparr>ptr_memoryview := None, ptr_f := alloc_next s, size_f := int (nbytes mv),
                     owner_f := Owner_DeviceBuffer (alloc_next s), ptr_type := ''gpu''\<rparr>"])
       (use to_gpu ok len in \<open>simp_all add: base_ok_def\<close>)
  moreover have "ext s s'"
    by (rule ext_update[OF to_gpu(1), where b' = "b\<lparr>ptr_memoryview := None, ptr_f := alloc_next s, size_f := int (nbytes mv),
                     owner_f := Owner_DeviceBuffer (alloc_next s), ptr_type := ''gpu''\<rparr>"])
       (use to_gpu len in simp_all)
  ultimately show ?thesis using to_gpu by simp
qed

lemma move_inplace_total:
  assumes "heap s r = Some b"
  shows "\<exists>res s'. move_inplace s r t = Some (res, s')"
proof (cases "view_desc b = None")
  case True
  from spillable_base_pinned[OF assms True] assms True show ?thesis
    by (auto simp: move_inplace_def to_device_def split: option.splits)
next
  case False
  with assms show ?thesis by (auto simp: move_inplace_def)
qed

lemma move_inplace_other:
  assumes "move_inplace s r t = Some (res, s')" and "x \<noteq> r"
  shows "heap s' x = heap s x"
  using assms(1) by (cases rule: move_inplace_cases) (use assms(2) in simp_all)

lemma move_inplace_gpu:
  assumes "wf_state s" and "heap s r = Some b" and "view_desc b = None"
  shows "\<exists>s' b'. move_inplace s r ''gpu'' = Some (Inr (), s') \<and> heap s' r = Some b' \<and>
           view_desc b' = None \<and> ptr_type b' = ''gpu'' \<and> exposed_f b' = exposed_f b \<and>
           size_f b' = size_f b \<and> last_accessed_f b' = last_accessed_f b"
proof (cases "ptr_type b = ''gpu''")
  case True
  with assms show ?thesis by (simp add: move_inplace_def)
next
  case False
  from wf_base[OF assms] have ok: "base_ok b" and pg: "pinned s r \<longrightarrow> ptr_type b = ''gpu''" by simp_all
  from ok False obtain mv where "ptr_type b = ''cpu''" "\<not> exposed_f b" "ptr_memoryview b = Some mv"
     "int (nbytes mv) = size_f b"
    by (auto simp: base_ok_def split: option.splits)
  with assms False pg spillable_base_pinned[OF assms(2,3)] show ?thesis
    by (simp add: move_inplace_def to_device_def)
qed

lemma extD:
  "ext s s' \<Longrightarrow> heap s r = Some b \<Longrightarrow>
   \<exists>b'. heap s' r = Some b' \<and> view_desc b' = view_desc b \<and> size_f b' = size_f b \<and>
        (exposed_f b \<longrightarrow> exposed_f b')"
  by (simp add: ext_def)

lemma is_spilled_in_heap: "is_spilled s r = Some v \<Longrightarrow> \<exists>b. heap s r = Some b"
  by (subst (asm) is_spilled.simps) (auto split: option.splits)

lemma spill_each_wf:
  "wf_state s \<Longrightarrow> \<exists>s'. spill_each s rs = Some s' \<and> wf_state s' \<and> ext s s' \<and> owners s' = owners s \<and>
      next_ref s' = next_ref s \<and> clock s' = clock s \<and> set (registered s') = set (registered s)"
proof (induction rs arbitrary: s)
  case Nil
  then show ?case by (simp add: ext_refl)
next
  case (Cons r rs)
  show ?case
  proof (cases "r \<in> set (registered s) \<and> is_spilled s r = Some False \<and> spillable s r = Some True")
    case True
    then obtain b where "heap s r = Some b" using is_spilled_in_heap by blast
    from move_inplace_total[OF this] obtain res s1 where m: "move_inplace s r ''cpu'' = Some (res, s1)"
      by blast
    from move_inplace_wf[OF Cons.prems m] have w1: "wf_state s1" and e1: "ext s s1"
      and f1: "owners s1 = owners s" "next_ref s1 = next_ref s" "clock s1 = clock s" "registered s1 = registered s"
      by simp_all
    from Cons.IH[OF w1] obtain s' where "spill_each s1 rs = Some s'" "wf_state s'" "ext s1 s'"
       "owners s' = owners s1" "next_ref s' = next_ref s1" "clock s' = clock s1"
       "set (registered s') = set (registered s1)" by blast
    with True m e1 f1 show ?thesis by (auto intro: ext_trans)
  next
    case False
    with Cons.IH[OF Cons.prems] show ?thesis by auto
  qed
qed

lemma spill_each_untouched:
  "spill_each s rs = Some s' \<Longrightarrow> x \<notin> set rs \<Longrightarrow> heap s' x = heap s x"
proof (induction rs arbitrary: s)
  case Nil
  then show ?case by simp
next
  case (Cons r rs)
  show ?case
  proof (cases "r \<in> set (registered s) \<and> is_spilled s r = Some False \<and> spillable s r = Some True")
    case True
    with Cons.prems obtain res s1 where m: "move_inplace s r ''cpu'' = Some (res, s1)"
      and r: "spill_each s1 rs = Some s'"
      by (auto split: option.splits)
    from Cons.prems have "x \<noteq> r" "x \<notin> set rs" by auto
    with Cons.IH[OF r] move_inplace_other[OF m] show ?thesis by simp
  next
    case False
    with Cons show ?thesis by auto
  qed
qed

text \<open>A buffer that is exposed or pinned is never moved by the manager.\<close>
lemma move_inplace_unspillable_same:
  assumes "move_inplace s r t = Some (res, s')" and "heap s x = Some b" and "view_desc b = None"
    and "exposed_f b \<or> pinned s x"
  shows "heap s' x = Some b"
  using assms(1) by (cases rule: move_inplace_cases) (use assms(2-) in \<open>auto\<close>)

lemma spill_each_unspillable_same:
  "spill_each s rs = Some s' \<Longrightarrow> heap s x = Some b \<Longrightarrow> view_desc b = None \<Longrightarrow>
   exposed_f b \<or> pinned s x \<Longrightarrow> wf_state s \<Longrightarrow> heap s' x = Some b"
proof (induction rs arbitrary: s)
  case Nil
  then show ?case by simp
next
  case (Cons r rs)
  show ?case
  proof (cases "r \<in> set (registered s) \<and> is_spilled s r = Some False \<and> spillable s r = Some True")
    case True
    with Cons.prems obtain res s1 where m: "move_inplace s r ''cpu'' = Some (res, s1)"
      and r: "spill_each s1 rs = Some s'"
      by (auto split: option.splits)
    from move_inplace_unspillable_same[OF m Cons.prems(2,3,4)] have h1: "heap s1 x = Some b" .
    from move_inplace_wf[OF Cons.prems(5) m] have "wf_state s1" "owners s1 = owners s" by simp_all
    with Cons.IH[OF r h1 Cons.prems(3)] Cons.prems(4) show ?thesis by (simp add: pinned_def)
  next
    case False
    with Cons show ?thesis by auto
  qed
qed

lemma ptr_base_wf:
  assumes "wf_state s" and "heap s r = Some b" and "view_desc b = None"
  shows "\<exists>s' b'. ptr_base pol s r = Some (Inr (ptr_f b'), s') \<and> wf_state s' \<and> ext s s' \<and>
           owners s' = owners s \<and> next_ref s' = next_ref s \<and>
           set (registered s') = set (registered s) \<and>
           heap s' r = Some b' \<and> view_desc b' = None \<and> exposed_f b' \<and> ptr_type b' = ''gpu''"
proof -
  from spill_each_wf[OF assms(1), of "pol s"] obtain s1 where
    s1: "spill_to_device_limit pol s = Some s1" "wf_state s1" "ext s s1" "owners s1 = owners s"
      "next_ref s1 = next_ref s" "set (registered s1) = set (registered s)"
    by (auto simp: spill_to_device_limit_def)
  from extD[OF s1(3) assms(2)] assms(3) obtain b1 where
    b1: "heap s1 r = Some b1" "view_desc b1 = None" "size_f b1 = size_f b"
    by auto
  from move_inplace_gpu[OF s1(2) b1(1,2)] obtain s2 b2 where
    m: "move_inplace s1 r ''gpu'' = Some (Inr (), s2)" and b2: "heap s2 r = Some b2" "view_desc b2 = None"
      "ptr_type b2 = ''gpu''" "size_f b2 = size_f b1"
    by blast
  from move_inplace_wf[OF s1(2) m] have s2: "wf_state s2" "ext s1 s2" "owners s2 = owners s1"
    "next_ref s2 = next_ref s1" "registered s2 = registered s1" by simp_all
  let ?b' = "b2\<lparr>exposed_f := True, last_accessed_f := clock s2\<rparr>"
  let ?s' = "s2\<lparr>clock := Suc (clock s2), heap := (heap s2)(r \<mapsto> ?b')\<rparr>"
  have res: "ptr_base pol s r = Some (Inr (ptr_f ?b'), ?s')"
    using s1(1) m b2(1) by (simp add: ptr_base_def time_monotonic_def)
  from wf_base[OF s2(1) b2(1,2)] b2 have ok: "base_ok ?b'" by (simp add: base_ok_def)
  have w: "wf_state ?s'"
    by (rule wf_update_base[OF s2(1) b2(1,2), where b' = ?b']) (use ok b2 in simp_all)
  have e: "ext s2 ?s'"
    by (rule ext_update[OF b2(1), where b' = ?b']) simp_all
  from res w e s1 s2 b2 show ?thesis
    by (intro exI[of _ ?s'] exI[of _ ?b']) (auto intro: ext_trans)
qed

lemma ptr_wf:
  assumes "wf_state s" and "heap s r = Some b"
  shows "\<exists>p s'. ptr pol s r = Some (Inr p, s') \<and> wf_state s' \<and> ext s s' \<and>
           owners s' = owners s \<and> next_ref s' = next_ref s \<and>
           set (registered s') = set (registered s)"
proof (cases "view_desc b")
  case None
  from ptr_base_wf[OF assms None, of pol] assms None show ?thesis
    by (subst ptr.simps) auto
next
  case (Some v)
  obtain base off where v: "v = (base, off)" by (cases v)
  from view_okD[OF wf_view[OF assms Some[unfolded v]]] obtain bb where
    bb: "heap s base = Some bb" "view_desc bb = None" by blast
  from ptr_base_wf[OF assms(1) bb, of pol] obtain s' and b' :: buffer where
    p: "ptr_base pol s base = Some (Inr (ptr_f b'), s')" and r: "wf_state s'" "ext s s'"
     "owners s' = owners s" "next_ref s' = next_ref s" "set (registered s') = set (registered s)"
    by blast
  from p bb have "ptr pol s base = Some (Inr (ptr_f b'), s')" by (subst ptr.simps) simp
  with assms Some v have "ptr pol s r = Some (Inr (ptr_f b' + off), s')"
    by (subst ptr.simps) (simp add: add_offset_def)
  with r show ?thesis by blast
qed

lemma concat_update_append_set:
  "k < length xs \<Longrightarrow> set (concat (xs[k := xs ! k @ [y]])) = insert y (set (concat xs))"
proof (induction xs arbitrary: k)
  case Nil
  then show ?case by simp
next
  case (Cons x xs)
  then show ?case by (cases k) auto
qed

lemma concat_update_nil_subset:
  "set (concat (xs[k := []])) \<subseteq> set (concat xs)"
proof (induction xs arbitrary: k)
  case Nil
  then show ?case by simp
next
  case (Cons x xs)
  then show ?case by (cases k) auto
qed

lemma wf_owners_mono:
  assumes "wf_state s" and "heap s' = heap s" and "next_ref s' = next_ref s"
    and "\<And>x. pinned s' x \<Longrightarrow> pinned s x"
  shows "wf_state s'"
  unfolding wf_state_def
proof (intro conjI allI impI)
  fix x bx assume "heap s' x = Some bx"
  with assms show "x < next_ref s'" by (auto dest: wf_lt)
next
  fix x bx assume "heap s' x = Some bx" "view_desc bx = None"
  with assms show "base_ok bx" by (auto dest: wf_base)
next
  fix x bx assume "heap s' x = Some bx" "view_desc bx = None" "pinned s' x"
  with assms(1,2) assms(4)[of x] show "ptr_type bx = ''gpu''" by (auto dest: wf_base)
next
  fix x bx base off assume h: "heap s' x = Some bx" "view_desc bx = Some (base, off)"
  with assms have hx: "heap s x = Some bx" by simp
  from wf_view[OF assms(1) hx h(2)] assms(2) show "view_ok s' bx base off"
    by (simp add: view_ok_def)
next
  fix x assume "pinned s' x"
  with assms(1,3) assms(4)[of x] show "x < next_ref s'" by (auto dest: wf_pinned)
qed

lemma wf_pin:
  assumes "wf_state s" and "heap s base = Some bb" and "view_desc bb = None"
    and "ptr_type bb = ''gpu''" and "k < length (owners s)"
    and "heap s' = heap s" and "next_ref s' = next_ref s"
    and "owners s' = (owners s)[k := owners s ! k @ [base]]"
  shows "wf_state s'"
proof -
  have pin: "\<And>x. pinned s' x \<longleftrightarrow> x = base \<or> pinned s x"
    using assms(5,8) by (simp add: pinned_def concat_update_append_set del: set_concat)
  show ?thesis
    unfolding wf_state_def pin
  proof (intro conjI allI impI)
    fix x bx assume "heap s' x = Some bx"
    with assms show "x < next_ref s'" by (auto dest: wf_lt)
  next
    fix x bx assume "heap s' x = Some bx" "view_desc bx = None"
    with assms show "base_ok bx" by (auto dest: wf_base)
  next
    fix x bx assume "heap s' x = Some bx" "view_desc bx = None" "x = base \<or> pinned s x"
    with assms(1,2,3,4,6) show "ptr_type bx = ''gpu''" by (auto dest: wf_base)
  next
    fix x bx base' off assume h: "heap s' x = Some bx" "view_desc bx = Some (base', off)"
    with assms have hx: "heap s x = Some bx" by simp
    from wf_view[OF assms(1) hx h(2)] assms(6) show "view_ok s' bx base' off"
      by (simp add: view_ok_def)
  next
    fix x assume "x = base \<or> pinned s x"
    with assms(1,2,7) show "x < next_ref s'" by (auto dest: wf_pinned wf_lt)
  qed
qed

lemma get_base_wf:
  assumes "wf_state s" and "heap s r = Some b"
  shows "\<exists>base off bb. get_base r b = Inr (base, off) \<and> heap s base = Some bb \<and> view_desc bb = None \<and>
           0 \<le> off \<and> off + size_f b \<le> size_f bb \<and> 0 \<le> size_f b \<and>
           (case view_desc b of None \<Rightarrow> base = r \<and> off = 0 | Some v \<Rightarrow> v = (base, off))"
proof (cases "view_desc b")
  case None
  with assms wf_base[OF assms None] show ?thesis by (simp add: get_base_def base_ok_def)
next
  case (Some v)
  obtain base off where v: "v = (base, off)" by (cases v)
  from view_okD[OF wf_view[OF assms Some[unfolded v]]] Some v show ?thesis
    by (auto simp: get_base_def)
qed

lemma ptr_raw_wf:
  assumes "wf_state s" and "heap s r = Some b" and "k < length (owners s)"
  shows "\<exists>base off bb s'. get_base r b = Inr (base, off) \<and>
           ptr_raw s r k = Some (Inr (ptr_f bb + off), s') \<and> wf_state s' \<and> ext s s' \<and>
           next_ref s' = next_ref s \<and> registered s' = registered s \<and>
           owners s' = (owners s)[k := owners s ! k @ [base]] \<and>
           heap s' base = Some bb \<and> view_desc bb = None \<and> ptr_type bb = ''gpu'' \<and>
           (\<forall>b0. heap s base = Some b0 \<longrightarrow> exposed_f bb = exposed_f b0) \<and>
           (\<forall>x. x \<noteq> base \<longrightarrow> heap s' x = heap s x)"
proof -
  from get_base_wf[OF assms(1,2)] obtain base off bb0 where
    g: "get_base r b = Inr (base, off)" "heap s base = Some bb0" "view_desc bb0 = None" by blast
  from move_inplace_gpu[OF assms(1) g(2,3)] obtain s1 b1 where
    m: "move_inplace s base ''gpu'' = Some (Inr (), s1)" and b1: "heap s1 base = Some b1"
      "view_desc b1 = None" "ptr_type b1 = ''gpu''" "exposed_f b1 = exposed_f bb0" "size_f b1 = size_f bb0"
    by blast
  from move_inplace_wf[OF assms(1) m] have s1: "wf_state s1" "ext s s1" "owners s1 = owners s"
    "next_ref s1 = next_ref s" "registered s1 = registered s" by simp_all
  let ?bb = "b1\<lparr>last_accessed_f := clock s1\<rparr>"
  let ?s2 = "s1\<lparr>clock := Suc (clock s1), heap := (heap s1)(base \<mapsto> ?bb)\<rparr>"
  let ?s' = "s1\<lparr>clock := Suc (clock s1), heap := (heap s1)(base \<mapsto> ?bb),
               owners := (owners s1)[k := owners s1 ! k @ [base]]\<rparr>"
  have res: "ptr_raw s r k = Some (Inr (ptr_f ?bb + off), ?s')"
    using assms(2,3) g m b1(1) s1(3) by (simp add: ptr_raw_def time_monotonic_def)
  from wf_base[OF s1(1) b1(1,2)] b1 have ok: "base_ok ?bb" by (simp add: base_ok_def)
  have w2: "wf_state ?s2"
    by (rule wf_update_base[OF s1(1) b1(1,2), where b' = ?bb]) (use ok b1 in simp_all)
  have w: "wf_state ?s'"
    by (rule wf_pin[OF w2, where base = base and bb = ?bb and k = k])
       (use b1 s1 assms(3) in simp_all)
  have e: "ext s1 ?s'"
    by (rule ext_update[OF b1(1), where b' = ?bb]) simp_all
  have oth: "\<forall>x. x \<noteq> base \<longrightarrow> heap ?s' x = heap s x"
    using move_inplace_other[OF m] by simp
  from res w e s1 b1 g oth show ?thesis
    by (intro exI[of _ base] exI[of _ off] exI[of _ ?bb] exI[of _ ?s'])
       (auto intro: ext_trans)
qed

lemma slice_indices_bounds:
  assumes "slice_indices key len = Inr (a, z, 1)"
  shows "0 \<le> len \<and> 0 \<le> a \<and> a \<le> len \<and> 0 \<le> z \<and> z \<le> len"
  using assms
  by (auto simp: slice_indices_def Let_def split: if_splits option.splits)

lemma wf_new_object:
  assumes "wf_state s" and "heap s' = (heap s)(next_ref s \<mapsto> v)" and "next_ref s' = Suc (next_ref s)"
    and "owners s' = owners s"
    and "case view_desc v of None \<Rightarrow> base_ok v | Some (base, off) \<Rightarrow> view_ok s v base off"
  shows "wf_state s' \<and> ext s s'"
proof
  have pin_eq: "\<And>x. pinned s' x = pinned s x" using assms by (simp add: pinned_def)
  have np: "\<not> pinned s (next_ref s)" using wf_pinned[OF assms(1), of "next_ref s"] by auto
  have fresh: "heap s (next_ref s) = None" by (rule wf_fresh[OF assms(1)])
  show "wf_state s'"
    unfolding wf_state_def pin_eq
  proof (intro conjI allI impI)
    fix x bx assume "heap s' x = Some bx"
    with assms show "x < next_ref s'" by (auto dest: wf_lt split: if_splits)
  next
    fix x bx assume "heap s' x = Some bx" "view_desc bx = None"
    with assms show "base_ok bx" by (auto dest: wf_base split: if_splits)
  next
    fix x bx assume "heap s' x = Some bx" "view_desc bx = None" "pinned s x"
    with assms(1,2) np show "ptr_type bx = ''gpu''" by (auto dest: wf_base split: if_splits)
  next
    fix x bx base off assume h: "heap s' x = Some bx" "view_desc bx = Some (base, off)"
    have "view_ok s bx base off"
    proof (cases "x = next_ref s")
      case True
      with h assms(2,5) show ?thesis by simp
    next
      case False
      with h assms(2) have "heap s x = Some bx" by simp
      from wf_view[OF assms(1) this h(2)] show ?thesis .
    qed
    then show "view_ok s' bx base off"
      using assms(2) fresh by (auto simp: view_ok_def split: option.splits)
  next
    fix x assume "pinned s x"
    with assms show "x < next_ref s'" by (auto dest: wf_pinned)
  qed
  show "ext s s'" using assms(2) fresh by (auto simp: ext_def)
qed

lemma getitem_wf:
  assumes "wf_state s" and "getitem s r key = Some (res, s')"
  shows "wf_state s' \<and> ext s s' \<and> owners s' = owners s \<and> registered s' = registered s"
proof -
  from assms(2) obtain b where hb: "heap s r = Some b"
    by (auto simp: getitem_def split: option.splits)
  from get_base_wf[OF assms(1) hb] obtain base off bb where
    g: "heap s base = Some bb" "view_desc bb = None" "0 \<le> off" "off + size_f b \<le> size_f bb"
       "case view_desc b of None \<Rightarrow> base = r \<and> off = 0 | Some v \<Rightarrow> v = (base, off)"
    by blast
  show ?thesis
  proof (cases "\<exists>a z. slice_indices key (size_f b) = Inr (a, z, 1) \<and> 0 \<le> z - a")
    case False
    with assms(2) hb have "s' = s"
      by (auto simp: getitem_def create_view_def split: sum.splits if_splits)
    with assms(1) show ?thesis by (simp add: ext_refl)
  next
    case True
    then obtain a z where si: "slice_indices key (size_f b) = Inr (a, z, 1)" "0 \<le> z - a" by blast
    note bnd = slice_indices_bounds[OF si(1)]
    let ?v = "\<lparr>exposed_f = False, last_accessed_f = 0, view_desc = Some (base, off + a),
               ptr_type = [], ptr_memoryview = None, ptr_f = 0, size_f = z - a,
               owner_f = Owner_Base base\<rparr>"
    have s': "s' = s\<lparr>heap := (heap s)(next_ref s \<mapsto> ?v), next_ref := Suc (next_ref s)\<rparr>"
      using assms(2) hb si g(5)
      by (auto simp: getitem_def create_view_def split: option.splits)
    have "wf_state s' \<and> ext s s'"
      by (rule wf_new_object[OF assms(1), where v = ?v])
         (use s' g bnd si in \<open>auto simp: view_ok_def\<close>)
    with s' show ?thesis by simp
  qed
qed

lemma move_inplace_cpu:
  assumes "wf_state s" and "heap s r = Some b" and "view_desc b = None"
    and "\<not> exposed_f b" and "\<not> pinned s r"
  shows "\<exists>s' b' mv. move_inplace s r ''cpu'' = Some (Inr (), s') \<and> heap s' r = Some b' \<and>
           view_desc b' = None \<and> ptr_type b' = ''cpu'' \<and> ptr_memoryview b' = Some mv \<and>
           int (nbytes mv) = size_f b \<and>
           mv = (if ptr_type b = ''gpu''
                 then bytes_view (copy_ptr_to_host (dmem s) (ptr_f b) (nat (size_f b)))
                 else the (ptr_memoryview b)) \<and>
           (ptr_type b = ''cpu'' \<longrightarrow> s' = s)"
proof -
  from wf_base[OF assms(1,2,3)] have ok: "base_ok b" by simp
  note sp = spillable_base_pinned[OF assms(2,3)]
  show ?thesis
  proof (cases "ptr_type b = ''gpu''")
    case True
    with assms ok sp show ?thesis
      by (simp add: move_inplace_def base_ok_def copy_ptr_to_host_def)
  next
    case False
    with ok obtain mv where "ptr_type b = ''cpu''" "ptr_memoryview b = Some mv" "int (nbytes mv) = size_f b"
      by (auto simp: base_ok_def split: option.splits)
    with assms show ?thesis by (simp add: move_inplace_def)
  qed
qed

lemma memoryview_unspillable:
  assumes "wf_state s" and "heap s r = Some b" and "get_base r b = Inr (base, off)"
    and "heap s base = Some bb" and "view_desc bb = None" and "exposed_f bb \<or> pinned s base"
  shows "memoryview s r =
           Some (Inr (bytes_view (copy_ptr_to_host (dmem s) (ptr_f bb + off) (nat (size_f b)))), s) \<and>
         ptr_type bb = ''gpu''"
proof -
  from wf_base[OF assms(1,4,5)] assms(6) have gpu: "ptr_type bb = ''gpu''"
    by (auto simp: base_ok_def)
  from get_base_wf[OF assms(1,2)] have sz: "0 \<le> size_f b" by blast
  from spillable_base_pinned[OF assms(4,5)] assms(6) have sp: "spillable s base = Some False"
    by auto
  from assms(2,3,4,5) gpu sz sp show ?thesis
    by (simp add: memoryview_def)
qed


lemma memoryview_wf:
  assumes "wf_state s" and "heap s r = Some b"
  shows "\<exists>res s'. memoryview s r = Some (res, s') \<and> wf_state s' \<and> ext s s' \<and>
           owners s' = owners s \<and> next_ref s' = next_ref s \<and> registered s' = registered s"
proof -
  from get_base_wf[OF assms] obtain base off bb where
    g: "get_base r b = Inr (base, off)" "heap s base = Some bb" "view_desc bb = None" by blast
  show ?thesis
  proof (cases "exposed_f bb \<or> pinned s base")
    case True
    from memoryview_unspillable[OF assms g True] assms(1) show ?thesis
      by (auto simp: ext_refl)
  next
    case False
    then have ne: "\<not> exposed_f bb" and np: "\<not> pinned s base" by simp_all
    from move_inplace_cpu[OF assms(1) g(2,3) ne np] obtain s1 b1 mv where
      m: "move_inplace s base ''cpu'' = Some (Inr (), s1)" and b1: "heap s1 base = Some b1"
        "ptr_memoryview b1 = Some mv" by blast
    from move_inplace_wf[OF assms(1) m] have w: "wf_state s1" "ext s s1" "owners s1 = owners s"
      "next_ref s1 = next_ref s" "registered s1 = registered s" by simp_all
    from spillable_base_pinned[OF g(2,3)] ne np have sp: "spillable s base = Some True" by simp
    from assms(2) g sp m b1 have "memoryview s r = Some (mv_getslice mv off (off + size_f b), s1)"
      by (simp add: memoryview_def split: sum.splits)
    with w show ?thesis by blast
  qed
qed

lemma init_fields_frame:
  assumes "init_fields s data e = (res, s1)"
  shows "heap s1 = heap s \<and> next_ref s1 = next_ref s \<and> owners s1 = owners s \<and>
         registered s1 = registered s \<and>
         (\<forall>b. res = Inr b \<longrightarrow> view_desc b = None \<and> base_ok b)"
proof (cases data)
  case (SrcSpillable x)
  with assms show ?thesis
    by (auto simp: init_fields_def time_monotonic_def)
next
  case (SrcDeviceBuffer p n)
  with assms show ?thesis
    by (auto simp: init_fields_def time_monotonic_def base_ok_def)
next
  case (SrcCudaArray p n)
  with assms show ?thesis
    by (auto simp: init_fields_def time_monotonic_def base_ok_def)
next
  case (SrcHost c bs)
  show ?thesis
  proof (cases e)
    case True
    with assms SrcHost show ?thesis
      by (auto simp: init_fields_def time_monotonic_def to_device_def base_ok_def)
  next
    case False
    with assms SrcHost show ?thesis
      by (cases c) (auto simp: init_fields_def time_monotonic_def base_ok_def)
  qed
qed

lemma lookup_in_heap:
  assumes "lookup_address_range s p n = Some base"
  shows "\<exists>b. heap s base = Some b"
proof -
  from assms have "is_overlapping s base p n = Some (Inr True)"
    by (auto simp: lookup_address_range_def find_Some_iff)
  then show ?thesis by (auto simp: is_overlapping_def split: option.splits)
qed

lemma notify_manager_wf:
  assumes "wf_state s"
  shows "\<exists>s'. notify_manager pol s r b = Some (Inr (), s') \<and> wf_state s' \<and> ext s s' \<and>
           owners s' = owners s \<and> next_ref s' = next_ref s \<and>
           set (registered s') \<subseteq> insert r (set (registered s))"
proof (cases "lookup_address_range s (ptr_f b) (size_f b)")
  case None
  have "wf_state (manager_add s r) = wf_state s"
    by (rule wf_cong) (simp_all add: manager_add_def)
  moreover have "ext s (manager_add s r)"
    by (rule ext_cong) (simp add: manager_add_def)
  ultimately have "wf_state (manager_add s r)" "ext s (manager_add s r)"
    using assms by simp_all
  with None assms show ?thesis
    by (auto simp: notify_manager_def ext_refl manager_add_def)
next
  case (Some base)
  from lookup_in_heap[OF Some] obtain bb where "heap s base = Some bb" by blast
  from ptr_wf[OF assms this, of pol] Some show ?thesis
    by (auto simp: notify_manager_def)
qed

lemma init_wf:
  assumes "wf_state s"
  shows "\<exists>res s'. init pol s data e = Some (res, s') \<and> wf_state s' \<and> ext s s' \<and>
           owners s' = owners s \<and>
           (\<forall>x\<in>set (registered s'). x \<in> set (registered s) \<or> heap s' x \<noteq> None) \<and>
           (case fst (init_fields s data e) of Inl err \<Rightarrow> res = Inl err
            | Inr b \<Rightarrow> res = Inr (next_ref s))"
proof -
  obtain r0 s1 where f: "init_fields s data e = (r0, s1)" by (cases "init_fields s data e")
  note fr = init_fields_frame[OF f]
  from fr assms have w1: "wf_state s1" by (simp add: wf_cong[of s1 s])
  from fr have e1: "ext s s1" by (simp add: ext_cong)
  show ?thesis
  proof (cases r0)
    case (Inl err)
    with f w1 e1 fr show ?thesis by (simp add: init_def)
  next
    case (Inr b)
    let ?s2 = "s1\<lparr>heap := (heap s1)(next_ref s1 \<mapsto> b), next_ref := Suc (next_ref s1)\<rparr>"
    from fr Inr have bo: "view_desc b = None" "base_ok b" by simp_all
    have w2: "wf_state ?s2 \<and> ext s1 ?s2"
      by (rule wf_new_object[OF w1, where v = b]) (use bo in simp_all)
    from notify_manager_wf[of ?s2 pol "next_ref s1" b] w2 obtain s3 where
      n: "notify_manager pol ?s2 (next_ref s1) b = Some (Inr (), s3)" and
      w3: "wf_state s3" "ext ?s2 s3" "owners s3 = owners ?s2" and
      r3: "set (registered s3) \<subseteq> insert (next_ref s1) (set (registered ?s2))" by blast
    from spill_each_wf[OF w3(1), of "pol s3"] obtain s4 where
      sp: "spill_to_device_limit pol s3 = Some s4" and w4: "wf_state s4" "ext s3 s4" "owners s4 = owners s3"
      and r4: "set (registered s4) = set (registered s3)"
      by (auto simp: spill_to_device_limit_def)
    from e1 w2 w3 w4 have "ext s s4" by (blast intro: ext_trans)
    have "ext ?s2 s4" using w3(2) w4(2) by (rule ext_trans)
    from extD[OF this, of "next_ref s1" b] have "heap s4 (next_ref s1) \<noteq> None" by auto
    with r3 r4 fr have "\<forall>x\<in>set (registered s4). x \<in> set (registered s) \<or> heap s4 x \<noteq> None"
      by auto
    with \<open>ext s s4\<close> f Inr n sp w4 w3 fr show ?thesis by (simp add: init_def)
  qed
qed

lemma serialize_wf:
  assumes "wf_state s" and "heap s r = Some b"
  shows "\<exists>res s'. serialize s r = Some (res, s') \<and> wf_state s' \<and> ext s s' \<and>
           owners s' = owners s \<and> registered s' = registered s"
proof -
  from get_base_wf[OF assms] obtain base off bb where
    g: "heap s base = Some bb" "view_desc bb = None"
       "case view_desc b of None \<Rightarrow> base = r \<and> off = 0 | Some v \<Rightarrow> v = (base, off)" by blast
  have bs: "(case view_desc b of None \<Rightarrow> r | Some (base, off) \<Rightarrow> base) = base"
    using g(3) by (auto split: option.splits)
  have "is_spilled s r = is_spilled s base"
    using g(3) assms(2) by (cases "view_desc b") (auto simp: is_spilled_view)
  with is_spilled_base[OF g(1,2)] have sp: "is_spilled s r = Some (ptr_type bb \<noteq> ''gpu'')" by simp
  from memoryview_wf[OF assms] obtain res s1 where
    m: "memoryview s r = Some (res, s1)" "wf_state s1" "ext s s1" "owners s1 = owners s"
       "registered s1 = registered s" by blast
  show ?thesis
  proof (cases "ptr_type bb = ''gpu''")
    case True
    with sp have "is_spilled s r = Some False" by simp
    with assms g(1,2) bs show ?thesis by (simp add: serialize_def ext_refl)
  next
    case False
    with sp have "is_spilled s r = Some True" by simp
    with assms(2) g(1,2) bs m show ?thesis by (cases res) (simp_all add: serialize_def)
  qed
qed

lemma deserialize_cases:
  assumes "deserialize pol s hdr frames = Some (res, s')"
  shows "s' = s \<or> (\<exists>data. init pol s data False = Some (res, s'))"
proof (cases "frame_count hdr \<noteq> 1")
  case True
  with assms show ?thesis by (simp add: deserialize_def)
next
  case fc: False
  show ?thesis
  proof (cases frames)
    case Nil
    with assms fc show ?thesis by (simp add: deserialize_def)
  next
    case (Cons frame rest)
    show ?thesis
    proof (cases "rest = []")
      case False
      with assms fc Cons show ?thesis by (simp add: deserialize_def)
    next
      case True
      with assms fc Cons show ?thesis
        by (cases frame) (auto simp: deserialize_def split: if_splits)
    qed
  qed
qed

lemma deserialize_wf:
  assumes "wf_state s" and "deserialize pol s hdr frames = Some (res, s')"
  shows "wf_state s' \<and> ext s s' \<and> owners s' = owners s \<and>
         (\<forall>x\<in>set (registered s'). x \<in> set (registered s) \<or> heap s' x \<noteq> None)"
  using deserialize_cases[OF assms(2)]
proof
  assume "s' = s"
  with assms(1) show ?thesis by (simp add: ext_refl)
next
  assume "\<exists>data. init pol s data False = Some (res, s')"
  then obtain data where "init pol s data False = Some (res, s')" by blast
  with init_wf[OF assms(1), of pol data False] show ?thesis by auto
qed

lemma ptr_in_heap: "ptr pol s r = Some out \<Longrightarrow> \<exists>b. heap s r = Some b"
  by (subst (asm) ptr.simps) (auto split: option.splits)

lemma step_wf:
  assumes "wf_state s" and "step pol x s = Some s'"
  shows "wf_state s' \<and> ext s s'"
proof (cases x)
  case (Op_init data e)
  with assms(2) init_wf[OF assms(1), of pol data e] show ?thesis by auto
next
  case (Op_move_inplace r t)
  with assms(2) obtain res where "move_inplace s r t = Some (res, s')" by auto
  from move_inplace_wf[OF assms(1) this] show ?thesis by simp
next
  case (Op_ptr r)
  with assms(2) obtain res where p: "ptr pol s r = Some (res, s')" by auto
  from ptr_in_heap[OF p] obtain b where "heap s r = Some b" by blast
  from ptr_wf[OF assms(1) this, of pol] p show ?thesis by auto
next
  case (Op_ptr_raw r k)
  with assms(2) obtain res where p: "ptr_raw s r k = Some (res, s')" by auto
  then obtain b where hb: "heap s r = Some b" and k: "k < length (owners s)"
    by (auto simp: ptr_raw_def split: option.splits if_splits)
  from ptr_raw_wf[OF assms(1) hb k] p show ?thesis by auto
next
  case Op_new_owners
  with assms(2) have s': "s' = s\<lparr>owners := owners s @ [[]]\<rparr>" by (simp add: new_owners_def)
  have "wf_state s'"
    by (rule wf_owners_mono[OF assms(1)]) (simp_all add: s' pinned_def)
  moreover have "ext s s'" by (rule ext_cong) (simp add: s')
  ultimately show ?thesis by simp
next
  case (Op_drop_owners k)
  with assms(2) have s': "s' = s\<lparr>owners := (owners s)[k := []]\<rparr>" by (simp add: drop_owners_def)
  have "\<And>x. pinned s' x \<Longrightarrow> pinned s x"
    unfolding pinned_def s' using concat_update_nil_subset[of "owners s" k] by auto
  then have "wf_state s'"
    by (rule wf_owners_mono[OF assms(1), rotated 2]) (simp_all add: s')
  moreover have "ext s s'" by (rule ext_cong) (simp add: s')
  ultimately show ?thesis by simp
next
  case (Op_memoryview r)
  with assms(2) obtain res where p: "memoryview s r = Some (res, s')" by auto
  then obtain b where hb: "heap s r = Some b"
    by (auto simp: memoryview_def split: option.splits)
  from memoryview_wf[OF assms(1) hb] p show ?thesis by auto
next
  case (Op_getitem r key)
  with assms(2) obtain res where "getitem s r key = Some (res, s')" by auto
  from getitem_wf[OF assms(1) this] show ?thesis by simp
next
  case (Op_serialize r)
  with assms(2) obtain res where p: "serialize s r = Some (res, s')" by auto
  then obtain b where hb: "heap s r = Some b"
    by (auto simp: serialize_def split: option.splits)
  from serialize_wf[OF assms(1) hb] p show ?thesis by auto
next
  case (Op_deserialize hdr frames)
  with assms(2) obtain res where "deserialize pol s hdr frames = Some (res, s')" by auto
  from deserialize_wf[OF assms(1) this] show ?thesis by simp
next
  case Op_spill_to_device_limit
  with assms(2) spill_each_wf[OF assms(1), of "pol s"] show ?thesis
    by (auto simp: spill_to_device_limit_def)
qed

lemma run_wf:
  "wf_state s \<Longrightarrow> run pol xs s = Some s' \<Longrightarrow> wf_state s' \<and> ext s s'"
proof (induction xs arbitrary: s)
  case Nil
  then show ?case by (simp add: ext_refl)
next
  case (Cons x xs)
  then obtain s1 where s1: "step pol x s = Some s1" "run pol xs s1 = Some s'"
    by (auto split: option.splits)
  from step_wf[OF Cons.prems(1) s1(1)] have "wf_state s1" "ext s s1" by simp_all
  with Cons.IH[OF _ s1(2)] show ?case by (blast intro: ext_trans)
qed

lemma wf_initial: "wf_state (initial dm a)"
  by (simp add: wf_state_def initial_def pinned_def)

lemma reachable_wf: "run pol xs (initial dm a) = Some s \<Longrightarrow> wf_state s"
  using run_wf[OF wf_initial] by blast

lemma wf_queries:
  assumes "wf_state s" and "heap s r = Some b"
  shows "\<exists>base off bb. get_base r b = Inr (base, off) \<and> heap s base = Some bb \<and>
           view_desc bb = None \<and> base_ok bb \<and> (pinned s base \<longrightarrow> ptr_type bb = ''gpu'') \<and>
           exposed s r = Some (exposed_f bb) \<and>
           is_spilled s r = Some (ptr_type bb \<noteq> ''gpu'') \<and>
           expose_counter s r = Some (use_count s base) \<and>
           spillable s r = Some (\<not> exposed_f bb \<and> \<not> pinned s base)"
proof -
  from get_base_wf[OF assms] obtain base off bb where
    g: "get_base r b = Inr (base, off)" "heap s base = Some bb" "view_desc bb = None"
       "case view_desc b of None \<Rightarrow> base = r \<and> off = 0 | Some v \<Rightarrow> v = (base, off)" by blast
  note ok = wf_base[OF assms(1) g(2,3)]
  note q = exposed_base[OF g(2,3)] is_spilled_base[OF g(2,3)] expose_counter_base[OF g(2,3)]
    spillable_base_pinned[OF g(2,3)]
  show ?thesis
  proof (cases "view_desc b")
    case None
    with g(4) have "base = r" by simp
    with g q ok show ?thesis by auto
  next
    case (Some v)
    with g(4) have v: "view_desc b = Some (base, off)" by simp
    note exposed_view[OF assms(2) v] is_spilled_view[OF assms(2) v]
      expose_counter_view[OF assms(2) v] spillable_view[OF assms(2) v]
    with g q ok show ?thesis by auto
  qed
qed

lemma exposed_ext:
  assumes "wf_state s" and "ext s s'" and "exposed s r = Some True"
  shows "exposed s' r = Some True"
proof -
  from assms(3) obtain b where hb: "heap s r = Some b"
    by (subst (asm) exposed.simps) (auto split: option.splits)
  from extD[OF assms(2) hb] obtain b' where b': "heap s' r = Some b'" "view_desc b' = view_desc b"
    "exposed_f b \<longrightarrow> exposed_f b'" by blast
  show ?thesis
  proof (cases "view_desc b")
    case None
    with exposed_base[OF hb None] assms(3) b' show ?thesis
      by (simp add: exposed_base)
  next
    case (Some v)
    obtain base off where v: "view_desc b = Some (base, off)" using Some by (cases v) simp
    from view_okD[OF wf_view[OF assms(1) hb v]] obtain bb where
      bb: "heap s base = Some bb" "view_desc bb = None" by blast
    from exposed_view[OF hb v] exposed_base[OF bb] assms(3) have e: "exposed_f bb" by simp
    from extD[OF assms(2) bb(1)] bb(2) e obtain bb' where
      "heap s' base = Some bb'" "view_desc bb' = None" "exposed_f bb'" by auto
    with b' v show ?thesis by (simp add: exposed_view exposed_base)
  qed
qed

lemma holds_token_pinned: "holds_token s k base \<Longrightarrow> pinned s base"
  by (auto simp: holds_token_def pinned_def)

lemma step_holds_token:
  assumes "wf_state s" and "step pol x s = Some s'" and "x \<noteq> Op_drop_owners k"
    and "holds_token s k base"
  shows "holds_token s' k base"
proof (cases x)
  case (Op_init data e)
  with assms(2) init_wf[OF assms(1), of pol data e] have "owners s' = owners s" by auto
  with assms(4) show ?thesis by (simp add: holds_token_def)
next
  case (Op_move_inplace r t)
  with assms(2) obtain res where "move_inplace s r t = Some (res, s')" by auto
  from move_inplace_wf[OF assms(1) this] assms(4) show ?thesis by (simp add: holds_token_def)
next
  case (Op_ptr r)
  with assms(2) obtain res where p: "ptr pol s r = Some (res, s')" by auto
  from ptr_in_heap[OF p] obtain b where "heap s r = Some b" by blast
  from ptr_wf[OF assms(1) this, of pol] p have "owners s' = owners s" by auto
  with assms(4) show ?thesis by (simp add: holds_token_def)
next
  case (Op_ptr_raw r k')
  with assms(2) obtain res where p: "ptr_raw s r k' = Some (res, s')" by auto
  then obtain b where hb: "heap s r = Some b" and k: "k' < length (owners s)"
    by (auto simp: ptr_raw_def split: option.splits if_splits)
  from ptr_raw_wf[OF assms(1) hb k] obtain base' off' and bb' :: buffer and s'' where
    r: "ptr_raw s r k' = Some (Inr (ptr_f bb' + off'), s'')"
       "owners s'' = (owners s)[k' := owners s ! k' @ [base']]" by blast
  from r(1) p have "s'' = s'" by simp
  with r(2) have "owners s' = (owners s)[k' := owners s ! k' @ [base']]" by simp
  with assms(4) show ?thesis
    by (cases "k' = k") (simp_all add: holds_token_def)
next
  case Op_new_owners
  with assms(2) have "owners s' = owners s @ [[]]" by (auto simp: new_owners_def)
  with assms(4) show ?thesis by (auto simp: holds_token_def nth_append)
next
  case (Op_drop_owners k')
  with assms(2,3) have "owners s' = (owners s)[k' := []]" "k' \<noteq> k" by (auto simp: drop_owners_def)
  with assms(4) show ?thesis by (auto simp: holds_token_def)
next
  case (Op_memoryview r)
  with assms(2) obtain res where p: "memoryview s r = Some (res, s')" by auto
  then obtain b where hb: "heap s r = Some b"
    by (auto simp: memoryview_def split: option.splits)
  from memoryview_wf[OF assms(1) hb] p have "owners s' = owners s" by auto
  with assms(4) show ?thesis by (simp add: holds_token_def)
next
  case (Op_getitem r key)
  with assms(2) obtain res where "getitem s r key = Some (res, s')" by auto
  from getitem_wf[OF assms(1) this] assms(4) show ?thesis by (simp add: holds_token_def)
next
  case (Op_serialize r)
  with assms(2) obtain res where p: "serialize s r = Some (res, s')" by auto
  then obtain b where hb: "heap s r = Some b"
    by (auto simp: serialize_def split: option.splits)
  from serialize_wf[OF assms(1) hb] p have "owners s' = owners s" by auto
  with assms(4) show ?thesis by (simp add: holds_token_def)
next
  case (Op_deserialize hdr frames)
  with assms(2) obtain res where "deserialize pol s hdr frames = Some (res, s')" by auto
  from deserialize_wf[OF assms(1) this] assms(4) show ?thesis by (simp add: holds_token_def)
next
  case Op_spill_to_device_limit
  with assms(2) spill_each_wf[OF assms(1), of "pol s"] have "owners s' = owners s"
    by (auto simp: spill_to_device_limit_def)
  with assms(4) show ?thesis by (simp add: holds_token_def)
qed

lemma run_holds_token:
  "wf_state s \<Longrightarrow> run pol ys s = Some s' \<Longrightarrow> Op_drop_owners k \<notin> set ys \<Longrightarrow>
   holds_token s k base \<Longrightarrow> holds_token s' k base"
proof (induction ys arbitrary: s)
  case Nil
  then show ?case by simp
next
  case (Cons x ys)
  then obtain s1 where s1: "step pol x s = Some s1" "run pol ys s1 = Some s'"
    by (auto split: option.splits)
  from Cons.prems(3) have ne: "x \<noteq> Op_drop_owners k" "Op_drop_owners k \<notin> set ys" by auto
  from step_wf[OF Cons.prems(1) s1(1)] have w1: "wf_state s1" by simp
  from step_holds_token[OF Cons.prems(1) s1(1) ne(1) Cons.prems(4)] have "holds_token s1 k base" .
  from Cons.IH[OF w1 s1(2) ne(2) this] show ?case .
qed

lemma pinned_unspillable:
  assumes "wf_state s" and "heap s r = Some b" and "get_base r b = Inr (base, off)"
    and "pinned s base"
  shows "spillable s r = Some False \<and> is_spilled s r = Some False"
proof -
  from wf_queries[OF assms(1,2)] obtain base' off' and bb :: buffer where
    q: "get_base r b = Inr (base', off')" "pinned s base' \<longrightarrow> ptr_type bb = ''gpu''"
       "is_spilled s r = Some (ptr_type bb \<noteq> ''gpu'')"
       "spillable s r = Some (\<not> exposed_f bb \<and> \<not> pinned s base')" by blast
  from q(1) assms(3) have "base' = base" by simp
  with q assms(4) show ?thesis by simp
qed

lemma get_base_ext:
  assumes "ext s s'" and "heap s r = Some b"
  shows "\<exists>b'. heap s' r = Some b' \<and> get_base r b' = get_base r b"
proof -
  from extD[OF assms] obtain b' where "heap s' r = Some b'" "view_desc b' = view_desc b" by blast
  then show ?thesis by (simp add: get_base_def)
qed


lemma drop_after_pin_unpinned:
  assumes "\<not> pinned s base" and "owners s1 = (owners s)[k := owners s ! k @ [base]]"
  shows "\<not> pinned (drop_owners s1 k) base"
proof -
  have "(owners s1)[k := []] = (owners s)[k := []]" using assms(2) by simp
  then have "set (concat (owners (drop_owners s1 k))) \<subseteq> set (concat (owners s))"
    using concat_update_nil_subset[of "owners s" k] by (simp add: drop_owners_def del: set_concat)
  with assms(1) show ?thesis unfolding pinned_def by blast
qed

lemma reg_ok_ext:
  assumes "reg_ok s" and "ext s s'"
    and "\<forall>x\<in>set (registered s'). x \<in> set (registered s) \<or> heap s' x \<noteq> None"
  shows "reg_ok s'"
  unfolding reg_ok_def
proof
  fix x assume "x \<in> set (registered s')"
  with assms(3) have "x \<in> set (registered s) \<or> heap s' x \<noteq> None" by blast
  then show "heap s' x \<noteq> None"
  proof
    assume "x \<in> set (registered s)"
    with assms(1) obtain b where "heap s x = Some b" by (auto simp: reg_ok_def)
    from extD[OF assms(2) this] show ?thesis by auto
  qed simp
qed

lemma step_reg:
  assumes "wf_state s" and "step pol x s = Some s'"
  shows "\<forall>y\<in>set (registered s'). y \<in> set (registered s) \<or> heap s' y \<noteq> None"
proof (cases x)
  case (Op_init data e)
  with assms(2) init_wf[OF assms(1), of pol data e] show ?thesis by auto
next
  case (Op_move_inplace r t)
  with assms(2) obtain res where "move_inplace s r t = Some (res, s')" by auto
  from move_inplace_wf[OF assms(1) this] show ?thesis by simp
next
  case (Op_ptr r)
  with assms(2) obtain res where p: "ptr pol s r = Some (res, s')" by auto
  from ptr_in_heap[OF p] obtain b where "heap s r = Some b" by blast
  from ptr_wf[OF assms(1) this, of pol] p show ?thesis by auto
next
  case (Op_ptr_raw r k)
  with assms(2) obtain res where p: "ptr_raw s r k = Some (res, s')" by auto
  then obtain b where hb: "heap s r = Some b" and k: "k < length (owners s)"
    by (auto simp: ptr_raw_def split: option.splits if_splits)
  from ptr_raw_wf[OF assms(1) hb k] obtain s'' where
    "\<exists>res'. ptr_raw s r k = Some (res', s'')" "registered s'' = registered s" by blast
  with p show ?thesis by auto
next
  case Op_new_owners
  with assms(2) show ?thesis by (auto simp: new_owners_def)
next
  case (Op_drop_owners k)
  with assms(2) show ?thesis by (auto simp: drop_owners_def)
next
  case (Op_memoryview r)
  with assms(2) obtain res where p: "memoryview s r = Some (res, s')" by auto
  then obtain b where hb: "heap s r = Some b"
    by (auto simp: memoryview_def split: option.splits)
  from memoryview_wf[OF assms(1) hb] p show ?thesis by auto
next
  case (Op_getitem r key)
  with assms(2) obtain res where "getitem s r key = Some (res, s')" by auto
  from getitem_wf[OF assms(1) this] show ?thesis by simp
next
  case (Op_serialize r)
  with assms(2) obtain res where p: "serialize s r = Some (res, s')" by auto
  then obtain b where hb: "heap s r = Some b"
    by (auto simp: serialize_def split: option.splits)
  from serialize_wf[OF assms(1) hb] p show ?thesis by auto
next
  case (Op_deserialize hdr frames)
  with assms(2) obtain res where "deserialize pol s hdr frames = Some (res, s')" by auto
  from deserialize_wf[OF assms(1) this] show ?thesis by simp
next
  case Op_spill_to_device_limit
  with assms(2) spill_each_wf[OF assms(1), of "pol s"] show ?thesis
    by (auto simp: spill_to_device_limit_def)
qed

lemma run_reg:
  "wf_state s \<Longrightarrow> reg_ok s \<Longrightarrow> run pol xs s = Some s' \<Longrightarrow> reg_ok s'"
proof (induction xs arbitrary: s)
  case Nil
  then show ?case by simp
next
  case (Cons x xs)
  then obtain s1 where s1: "step pol x s = Some s1" "run pol xs s1 = Some s'"
    by (auto split: option.splits)
  from step_wf[OF Cons.prems(1) s1(1)] have w: "wf_state s1" "ext s s1" by simp_all
  from reg_ok_ext[OF Cons.prems(2) w(2) step_reg[OF Cons.prems(1) s1(1)]] have "reg_ok s1" .
  from Cons.IH[OF w(1) this s1(2)] show ?case .
qed

lemma reachable_reg: "run pol xs (initial dm a) = Some s \<Longrightarrow> reg_ok s"
  by (rule run_reg[OF wf_initial]) (simp_all add: reg_ok_def initial_def)

lemma move_inplace_flags:
  assumes "move_inplace s r t = Some (res, s')" and "heap s x = Some bx"
  shows "\<exists>bx'. heap s' x = Some bx' \<and> exposed_f bx' = exposed_f bx \<and>
           view_desc bx' = view_desc bx"
  using assms(1)
proof (cases rule: move_inplace_cases)
  case same
  with assms(2) show ?thesis by simp
next
  case (to_cpu b)
  with assms(2) show ?thesis by (cases "x = r") simp_all
next
  case (to_gpu b mv)
  with assms(2) show ?thesis by (cases "x = r") simp_all
qed

lemma spill_each_flags:
  "spill_each s rs = Some s' \<Longrightarrow> heap s x = Some bx \<Longrightarrow>
   \<exists>bx'. heap s' x = Some bx' \<and> exposed_f bx' = exposed_f bx \<and> view_desc bx' = view_desc bx"
proof (induction rs arbitrary: s bx)
  case Nil
  then show ?case by simp
next
  case (Cons r rs)
  show ?case
  proof (cases "r \<in> set (registered s) \<and> is_spilled s r = Some False \<and> spillable s r = Some True")
    case True
    with Cons.prems obtain res s1 where m: "move_inplace s r ''cpu'' = Some (res, s1)"
      and r: "spill_each s1 rs = Some s'"
      by (auto split: option.splits)
    from move_inplace_flags[OF m Cons.prems(2)] obtain b1 where
      b1: "heap s1 x = Some b1" "exposed_f b1 = exposed_f bx" "view_desc b1 = view_desc bx" by blast
    from Cons.IH[OF r b1(1)] b1 show ?thesis by auto
  next
    case False
    with Cons show ?thesis by auto
  qed
qed

lemma spill_each_keeps:
  "spill_each s rs = Some s' \<Longrightarrow> heap s x = Some bx \<Longrightarrow> view_desc bx = None \<Longrightarrow>
   x \<notin> set (registered s) \<or> ptr_type bx \<noteq> ''gpu'' \<Longrightarrow> wf_state s \<Longrightarrow> heap s' x = Some bx"
proof (induction rs arbitrary: s)
  case Nil
  then show ?case by simp
next
  case (Cons r rs)
  show ?case
  proof (cases "r \<in> set (registered s) \<and> is_spilled s r = Some False \<and> spillable s r = Some True")
    case True
    with Cons.prems obtain res s1 where m: "move_inplace s r ''cpu'' = Some (res, s1)"
      and r: "spill_each s1 rs = Some s'"
      by (auto split: option.splits)
    from True Cons.prems(2,3,4) have "x \<noteq> r" by (auto simp: is_spilled_base)
    from move_inplace_other[OF m this] Cons.prems(2) have h1: "heap s1 x = Some bx" by simp
    from move_inplace_wf[OF Cons.prems(5) m] have "wf_state s1" "registered s1 = registered s"
      by simp_all
    with Cons.IH[OF r h1 Cons.prems(3)] Cons.prems(4) show ?thesis by simp
  next
    case False
    with Cons show ?thesis by auto
  qed
qed

lemma ptr_is_ptr_base:
  "heap s r = Some b \<Longrightarrow> view_desc b = None \<Longrightarrow> ptr pol s r = ptr_base pol s r"
  by (subst ptr.simps) simp

lemma ptr_base_other:
  assumes "ptr_base pol s base = Some (res, s')"
  shows "\<exists>s1. spill_each s (pol s) = Some s1 \<and> (\<forall>x. x \<noteq> base \<longrightarrow> heap s' x = heap s1 x)"
proof -
  from assms obtain s1 where s1: "spill_each s (pol s) = Some s1"
    by (auto simp: ptr_base_def spill_to_device_limit_def split: option.splits)
  with assms obtain r2 s2 where m: "move_inplace s1 base ''gpu'' = Some (r2, s2)"
    by (auto simp: ptr_base_def spill_to_device_limit_def split: option.splits)
  have "\<forall>x. x \<noteq> base \<longrightarrow> heap s' x = heap s2 x"
    using assms s1 m
    by (cases r2) (auto simp: ptr_base_def spill_to_device_limit_def time_monotonic_def
                       split: option.splits)
  with move_inplace_other[OF m] s1 show ?thesis by auto
qed

lemma lookup_registered:
  assumes "lookup_address_range s p n = Some base"
  shows "base \<in> set (registered s) \<and> (\<exists>b. heap s base = Some b \<and> view_desc b = None)"
proof -
  from assms have "base \<in> set (registered s)" "is_overlapping s base p n = Some (Inr True)"
    by (auto simp: lookup_address_range_def find_Some_iff)
  then obtain b where b: "heap s base = Some b"
    by (auto simp: is_overlapping_def split: option.splits)
  have "view_desc b = None"
  proof (rule ccontr)
    assume "view_desc b \<noteq> None"
    with b have "is_overlapping s base p n = Some (Inl AttributeError)"
      by (simp add: is_overlapping_def)
    with \<open>is_overlapping s base p n = Some (Inr True)\<close> show False by simp
  qed
  with b \<open>base \<in> set (registered s)\<close> show ?thesis by simp
qed

text \<open>A new object that the manager has not been told about passes through the
  notification unchanged.\<close>

lemma notify_manager_new:
  assumes "wf_state s" and "heap s r = Some b" and "view_desc b = None"
    and "r \<notin> set (registered s)"
  shows "\<exists>s'. notify_manager pol s r b = Some (Inr (), s') \<and> wf_state s' \<and> heap s' r = Some b"
proof (cases "lookup_address_range s (ptr_f b) (size_f b)")
  case None
  with notify_manager_wf[OF assms(1), of pol r b] assms(2) show ?thesis
    by (auto simp: notify_manager_def manager_add_def)
next
  case (Some base)
  from lookup_registered[OF Some] obtain bb where
    bb: "base \<in> set (registered s)" "heap s base = Some bb" "view_desc bb = None" by blast
  with assms(4) have ne: "r \<noteq> base" by auto
  from notify_manager_wf[OF assms(1), of pol r b] obtain s' where
    n: "notify_manager pol s r b = Some (Inr (), s')" "wf_state s'" by blast
  with Some obtain p where "ptr pol s base = Some (Inr p, s')"
    by (auto simp: notify_manager_def split: option.splits sum.splits)
  with ptr_is_ptr_base[OF bb(2,3), of pol] have "ptr_base pol s base = Some (Inr p, s')" by simp
  from ptr_base_other[OF this] ne obtain s1 where
    s1: "spill_each s (pol s) = Some s1" "heap s' r = heap s1 r" by auto
  from spill_each_keeps[OF s1(1) assms(2,3) _ assms(1)] assms(4) have "heap s1 r = Some b" by simp
  with s1 n show ?thesis by auto
qed


lemma py_getslice_eq:
  assumes "0 \<le> a" and "0 \<le> n" and "a + n \<le> int (length xs)"
  shows "py_getslice xs a (a + n) = take (nat n) (drop (nat a) xs)"
  using assms by (simp add: py_getslice_def slice_indices_def min_def)


lemma py_getslice_full: "py_getslice xs 0 (int (length xs)) = xs"
proof -
  have "py_getslice xs 0 (0 + int (length xs)) = take (nat (int (length xs))) (drop (nat 0) xs)"
    by (rule py_getslice_eq) simp_all
  moreover have "take (nat (int (length xs))) (drop (nat 0) xs) = xs" by simp
  moreover have "(0::int) + int (length xs) = int (length xs)" by simp
  ultimately show ?thesis by (simp only:)
qed


lemma concat_singletons: "concat (map (\<lambda>x. [x]) xs) = xs"
  by (induction xs) simp_all


lemma byte_items_bytes_view: "byte_items (bytes_view bs)"
  by (simp add: bytes_view_def list_all_iff)




lemma init_init_open:
  "init pol s data e =
     (case init_open pol s data e of
        None \<Rightarrow> None
      | Some (Inl err, s3) \<Rightarrow> Some (Inl err, s3)
      | Some (Inr r, s3) \<Rightarrow>
          (case spill_to_device_limit pol s3 of
             None \<Rightarrow> None
           | Some s4 \<Rightarrow> Some (Inr r, s4)))"
  by (simp add: init_def init_open_def split: prod.splits sum.splits option.splits)

lemma copy_after_write: "copy_ptr_to_host (dmem_write m p bs) p (length bs) = bs"
proof (rule nth_equalityI)
  show "length (copy_ptr_to_host (dmem_write m p bs) p (length bs)) = length bs"
    by (simp add: copy_ptr_to_host_def)
next
  fix i assume "i < length (copy_ptr_to_host (dmem_write m p bs) p (length bs))"
  then have "i < length bs" by (simp add: copy_ptr_to_host_def)
  then show "copy_ptr_to_host (dmem_write m p bs) p (length bs) ! i = bs ! i"
    by (simp add: copy_ptr_to_host_def dmem_write_def)
qed

lemma copy_ptr_to_host_cong:
  assumes "\<forall>x. p \<le> x \<and> x < p + int n \<longrightarrow> m' x = m x"
  shows "copy_ptr_to_host m' p n = copy_ptr_to_host m p n"
  using assms by (simp add: copy_ptr_to_host_def)

lemma dmem_frame_refl: "dmem_frame s s"
  by (simp add: dmem_frame_def)

lemma dmem_frame_trans: "dmem_frame s s' \<Longrightarrow> dmem_frame s' s'' \<Longrightarrow> dmem_frame s s''"
  by (auto simp: dmem_frame_def)

lemma dmem_frame_eq: "dmem s' = dmem s \<Longrightarrow> alloc_next s' = alloc_next s \<Longrightarrow> dmem_frame s s'"
  by (simp add: dmem_frame_def)

lemma move_inplace_dmem:
  assumes "move_inplace s r t = Some (res, s')"
  shows "dmem_frame s s'"
  using assms
proof (cases rule: move_inplace_cases)
  case same
  then show ?thesis by (simp add: dmem_frame_refl)
next
  case (to_cpu b)
  then show ?thesis by (simp add: dmem_frame_def)
next
  case (to_gpu b mv)
  then show ?thesis by (simp add: dmem_frame_def dmem_write_def)
qed

lemma move_inplace_cpu_dmem:
  assumes "move_inplace s r ''cpu'' = Some (res, s')"
  shows "dmem s' = dmem s \<and> alloc_next s' = alloc_next s"
  using assms
proof (cases rule: move_inplace_cases)
  case same
  then show ?thesis by simp
next
  case (to_cpu b)
  then show ?thesis by simp
next
  case (to_gpu b mv)
  then show ?thesis by simp
qed

lemma spill_each_dmem:
  "spill_each s rs = Some s' \<Longrightarrow> dmem s' = dmem s \<and> alloc_next s' = alloc_next s"
proof (induction rs arbitrary: s)
  case Nil
  then show ?case by simp
next
  case (Cons r rs)
  show ?case
  proof (cases "r \<in> set (registered s) \<and> is_spilled s r = Some False \<and> spillable s r = Some True")
    case True
    with Cons.prems obtain res s1 where m: "move_inplace s r ''cpu'' = Some (res, s1)"
      and r: "spill_each s1 rs = Some s'"
      by (auto split: option.splits)
    from move_inplace_cpu_dmem[OF m] Cons.IH[OF r] show ?thesis by simp
  next
    case False
    with Cons show ?thesis by auto
  qed
qed

lemma ptr_base_dmem:
  assumes "ptr_base pol s base = Some (res, s')"
  shows "dmem_frame s s'"
proof -
  from assms obtain s1 where s1: "spill_each s (pol s) = Some s1"
    by (auto simp: ptr_base_def spill_to_device_limit_def split: option.splits)
  with assms obtain r2 s2 where m: "move_inplace s1 base ''gpu'' = Some (r2, s2)"
    by (auto simp: ptr_base_def spill_to_device_limit_def split: option.splits)
  have "dmem s' = dmem s2 \<and> alloc_next s' = alloc_next s2"
    using assms s1 m
    by (cases r2) (auto simp: ptr_base_def spill_to_device_limit_def time_monotonic_def
                       split: option.splits)
  then have "dmem_frame s2 s'" by (simp add: dmem_frame_eq)
  moreover from spill_each_dmem[OF s1] have "dmem_frame s s1" by (simp add: dmem_frame_eq)
  moreover note move_inplace_dmem[OF m]
  ultimately show ?thesis by (blast intro: dmem_frame_trans)
qed

lemma notify_manager_dmem:
  assumes "notify_manager pol s r b = Some (res, s')"
  shows "dmem_frame s s'"
proof (cases "lookup_address_range s (ptr_f b) (size_f b)")
  case None
  with assms show ?thesis
    by (auto simp: notify_manager_def manager_add_def dmem_frame_def)
next
  case (Some base)
  from lookup_registered[OF Some] obtain bb where
    bb: "heap s base = Some bb" "view_desc bb = None" by blast
  from assms Some obtain res' where "ptr pol s base = Some (res', s')"
    by (auto simp: notify_manager_def split: option.splits sum.splits)
  with ptr_is_ptr_base[OF bb, of pol] have "ptr_base pol s base = Some (res', s')" by simp
  then show ?thesis by (rule ptr_base_dmem)
qed

lemma init_new:
  assumes "wf_state s" and "reg_ok s" and "init_fields s data e = (Inr b, s1)"
  shows "\<exists>s3 s'. init_open pol s data e = Some (Inr (next_ref s), s3) \<and>
           init pol s data e = Some (Inr (next_ref s), s') \<and> wf_state s3 \<and>
           heap s3 (next_ref s) = Some b \<and> spill_each s3 (pol s3) = Some s' \<and> wf_state s' \<and>
           view_desc b = None \<and> dmem_frame s1 s3"
proof -
  note fr = init_fields_frame[OF assms(3)]
  from fr assms(1) have w1: "wf_state s1" by (simp add: wf_cong[of s1 s])
  let ?r = "next_ref s1"
  let ?s2 = "s1\<lparr>heap := (heap s1)(?r \<mapsto> b), next_ref := Suc ?r\<rparr>"
  from fr have bo: "view_desc b = None" "base_ok b" by simp_all
  have w2: "wf_state ?s2 \<and> ext s1 ?s2"
    by (rule wf_new_object[OF w1, where v = b]) (use bo in simp_all)
  have "heap s (next_ref s) = None" by (rule wf_fresh[OF assms(1)])
  with assms(2) have "next_ref s \<notin> set (registered s)" by (auto simp: reg_ok_def)
  with fr have nr: "?r \<notin> set (registered ?s2)" by simp
  have h2: "heap ?s2 ?r = Some b" by simp
  from notify_manager_new[OF _ h2 bo(1) nr, of pol] w2 obtain s3 where
    n: "notify_manager pol ?s2 ?r b = Some (Inr (), s3)" and w3: "wf_state s3"
    and h3: "heap s3 ?r = Some b" by blast
  from notify_manager_dmem[OF n] have d: "dmem_frame s1 s3" by (simp add: dmem_frame_def)
  from spill_each_wf[OF w3, of "pol s3"] obtain s' where
    sp: "spill_each s3 (pol s3) = Some s'" and w4: "wf_state s'" by blast
  from assms(3) n fr have io: "init_open pol s data e = Some (Inr (next_ref s), s3)"
    by (simp add: init_open_def)
  from assms(3) n sp fr have "init pol s data e = Some (Inr (next_ref s), s')"
    by (simp add: init_def spill_to_device_limit_def)
  with io w3 h3 sp w4 fr bo d show ?thesis by auto
qed

text \<open>What the manager's enforcement does to one device-resident base buffer: nothing,
  or the move to the host with the bytes read from device memory.\<close>

lemma spill_each_effect:
  "spill_each s rs = Some s' \<Longrightarrow> heap s x = Some bx \<Longrightarrow> view_desc bx = None \<Longrightarrow>
   wf_state s \<Longrightarrow>
   heap s' x = Some bx \<or>
   (x \<in> set rs \<and>
    heap s' x = Some (bx\<lparr>ptr_memoryview :=
                        Some (bytes_view (copy_ptr_to_host (dmem s) (ptr_f bx) (nat (size_f bx)))),
                      ptr_f := 0, owner_f := Owner_None, ptr_type := ''cpu''\<rparr>))"
proof (induction rs arbitrary: s)
  case Nil
  then show ?case by simp
next
  case (Cons r rs)
  show ?case
  proof (cases "r \<in> set (registered s) \<and> is_spilled s r = Some False \<and> spillable s r = Some True")
    case False
    with Cons.prems have "spill_each s rs = Some s'" by auto
    from Cons.IH[OF this Cons.prems(2,3,4)] show ?thesis by auto
  next
    case True
    with Cons.prems obtain res s1 where m: "move_inplace s r ''cpu'' = Some (res, s1)"
      and r: "spill_each s1 rs = Some s'"
      by (auto split: option.splits)
    from move_inplace_wf[OF Cons.prems(4) m] have w1: "wf_state s1" by simp
    from move_inplace_cpu_dmem[OF m] have d1: "dmem s1 = dmem s" by simp
    show ?thesis
    proof (cases "heap s1 x = Some bx")
      case True
      from Cons.IH[OF r True Cons.prems(3) w1] d1 show ?thesis by auto
    next
      case changed: False
      with move_inplace_other[OF m, of x] Cons.prems(2) have xr: "x = r" by auto
      from m have h1: "heap s1 x = Some (bx\<lparr>ptr_memoryview :=
                        Some (bytes_view (copy_ptr_to_host (dmem s) (ptr_f bx) (nat (size_f bx)))),
                      ptr_f := 0, owner_f := Owner_None, ptr_type := ''cpu''\<rparr>)"
      proof (cases rule: move_inplace_cases)
        case same
        with changed Cons.prems(2) show ?thesis by simp
      next
        case (to_cpu b)
        with xr Cons.prems(2) show ?thesis by simp
      next
        case (to_gpu b mv)
        then show ?thesis by simp
      qed
      have "heap s' x = Some (bx\<lparr>ptr_memoryview :=
                        Some (bytes_view (copy_ptr_to_host (dmem s) (ptr_f bx) (nat (size_f bx)))),
                      ptr_f := 0, owner_f := Owner_None, ptr_type := ''cpu''\<rparr>)"
        by (rule spill_each_keeps[OF r h1 _ _ w1]) (use Cons.prems(3) in simp_all)
      with xr show ?thesis by simp
    qed
  qed
qed





section \<open>Claims\<close>

text \<open>
  C1. In every state that a sequence of operations reaches, for every buffer, base or
  view: \<open>spillable\<close> is true exactly when \<open>exposed\<close> is false and the pin count, the
  use count of the expose counter minus one, is zero.
\<close>

theorem spillable_iff_unexposed_and_unpinned:
  assumes "run pol xs (initial dm a) = Some s" and "heap s r = Some b"
  shows "\<exists>e c. exposed s r = Some e \<and> expose_counter s r = Some c \<and>
           spillable s r = Some (\<not> e \<and> c - 1 = 0)"
proof -
  from wf_queries[OF reachable_wf[OF assms(1)] assms(2)] show ?thesis
    by (auto simp: use_count_def pinned_def count_list_0_iff)
qed

theorem spillable_iff_unexposed_and_unpinned_witness:
  "run no_spill pinned_ops (initial zero_mem 0) = Some pinned_state \<and>
   heap pinned_state 0 = Some (the (heap pinned_state 0)) \<and>
   (\<exists>e c. exposed pinned_state 0 = Some e \<and> expose_counter pinned_state 0 = Some c \<and>
      spillable pinned_state 0 = Some (\<not> e \<and> c - 1 = 0))"
proof -
  have h1: "run no_spill pinned_ops (initial zero_mem 0) = Some pinned_state"
    by (simp add: pinned_state_def pinned_ops_def eval_defs)
  have h2: "heap pinned_state 0 = Some (the (heap pinned_state 0))"
    by (simp add: pinned_state_def pinned_ops_def eval_defs)
  from spillable_iff_unexposed_and_unpinned[OF h1 h2] h1 h2 show ?thesis by blast
qed

text \<open>
  C2. Once \<open>exposed\<close> is true for a buffer, it is true after every further sequence of
  operations, whatever they are. (The constructor clears the flag on its copy path
  before the new object is returned, so no query sees it set there.)
\<close>

theorem exposed_is_a_latch:
  assumes "run pol xs (initial dm a) = Some s" and "exposed s r = Some True"
    and "run pol ys s = Some s'"
  shows "exposed s' r = Some True"
proof -
  have w: "wf_state s" by (rule reachable_wf[OF assms(1)])
  from run_wf[OF w assms(3)] have "ext s s'" by simp
  from exposed_ext[OF w this assms(2)] show ?thesis .
qed

theorem exposed_is_a_latch_witness:
  "run spill_all exposed_ops (initial zero_mem 0) = Some exposed_state \<and>
   exposed exposed_state 1 = Some True \<and>
   run spill_all latch_ops exposed_state = Some (the (run spill_all latch_ops exposed_state)) \<and>
   exposed (the (run spill_all latch_ops exposed_state)) 1 = Some True"
proof -
  have h1: "run spill_all exposed_ops (initial zero_mem 0) = Some exposed_state"
    by (simp add: exposed_state_def exposed_ops_def eval_defs)
  have h2: "exposed exposed_state 1 = Some True"
    by (simp add: exposed_state_def exposed_ops_def eval_defs)
  have h3: "run spill_all latch_ops exposed_state = Some (the (run spill_all latch_ops exposed_state))"
    by (simp add: exposed_state_def exposed_ops_def latch_ops_def eval_defs)
  from exposed_is_a_latch[OF h1 h2 h3] h1 h2 h3 show ?thesis by blast
qed

text \<open>
  C3. For a base buffer that is not spillable, \<open>move_inplace\<close> with a target other than
  the current residency raises the unspillable error, and the state it leaves is the
  state it found: residency, bytes, size and \<open>last_accessed\<close> are untouched.
\<close>

theorem move_inplace_unspillable_no_mutation:
  assumes "heap s r = Some b" and "view_desc b = None"
    and "spillable s r = Some False" and "target \<noteq> ptr_type b"
  shows "move_inplace s r target = Some (Inl Unspillable, s)"
  using assms by (auto simp: move_inplace_def)

theorem move_inplace_unspillable_no_mutation_witness:
  "heap exposed_state 0 = Some (the (heap exposed_state 0)) \<and>
   view_desc (the (heap exposed_state 0)) = None \<and>
   spillable exposed_state 0 = Some False \<and>
   ''cpu'' \<noteq> ptr_type (the (heap exposed_state 0)) \<and>
   move_inplace exposed_state 0 ''cpu'' = Some (Inl Unspillable, exposed_state)"
proof -
  have h1: "heap exposed_state 0 = Some (the (heap exposed_state 0))"
    by (simp add: exposed_state_def exposed_ops_def eval_defs)
  have h2: "view_desc (the (heap exposed_state 0)) = None"
    by (simp add: exposed_state_def exposed_ops_def eval_defs)
  have h3: "spillable exposed_state 0 = Some False"
    by (simp add: exposed_state_def exposed_ops_def eval_defs)
  have h4: "''cpu'' \<noteq> ptr_type (the (heap exposed_state 0))"
    by (simp add: exposed_state_def exposed_ops_def eval_defs)
  from move_inplace_unspillable_no_mutation[OF h1 h2 h3 h4] h1 h2 h3 h4 show ?thesis by blast
qed

text \<open>
  C10. In every reachable state an exposed buffer is on the device: \<open>exposed\<close> true
  implies \<open>is_spilled\<close> false.
\<close>

theorem exposed_implies_device_resident:
  assumes "run pol xs (initial dm a) = Some s" and "exposed s r = Some True"
  shows "is_spilled s r = Some False"
proof -
  from assms(2) obtain b where hb: "heap s r = Some b"
    by (subst (asm) exposed.simps) (auto split: option.splits)
  from wf_queries[OF reachable_wf[OF assms(1)] hb] assms(2) show ?thesis
    by (auto simp: base_ok_def)
qed

theorem exposed_implies_device_resident_witness:
  "run spill_all exposed_ops (initial zero_mem 0) = Some exposed_state \<and>
   exposed exposed_state 1 = Some True \<and> is_spilled exposed_state 1 = Some False"
proof -
  have h1: "run spill_all exposed_ops (initial zero_mem 0) = Some exposed_state"
    by (simp add: exposed_state_def exposed_ops_def eval_defs)
  have h2: "exposed exposed_state 1 = Some True"
    by (simp add: exposed_state_def exposed_ops_def eval_defs)
  from exposed_implies_device_resident[OF h1 h2] h1 h2 show ?thesis by blast
qed


text \<open>
  C4. \<open>ptr_raw\<close> on any buffer of a reachable state returns an address, leaves the base
  on the device with \<open>spillable\<close> false and \<open>exposed\<close> as it was (so false if it was
  false). As long as the collection that received the token is alive, whatever else is
  done, the buffer stays unspillable and on the device. If the base was spillable
  before the call, then once the collection is destroyed the use count is back to one
  and the buffer is spillable again.
\<close>

theorem ptr_raw_pins_without_exposing:
  assumes "run pol xs (initial dm a) = Some s" and "heap s r = Some b"
    and "k < length (owners s)"
  shows "\<exists>p s1. ptr_raw s r k = Some (Inr p, s1) \<and>
           is_spilled s1 r = Some False \<and> spillable s1 r = Some False \<and>
           exposed s1 r = exposed s r \<and>
           (\<forall>ys s2. run pol ys s1 = Some s2 \<longrightarrow> Op_drop_owners k \<notin> set ys \<longrightarrow>
              spillable s2 r = Some False \<and> is_spilled s2 r = Some False) \<and>
           (spillable s r = Some True \<longrightarrow>
              expose_counter (drop_owners s1 k) r = Some 1 \<and>
              spillable (drop_owners s1 k) r = Some True)"
proof -
  have w: "wf_state s" by (rule reachable_wf[OF assms(1)])
  from ptr_raw_wf[OF w assms(2,3)] obtain base off bb s1 where
    g: "get_base r b = Inr (base, off)" and
    p: "ptr_raw s r k = Some (Inr (ptr_f bb + off), s1)" and
    w1: "wf_state s1" and e1: "ext s s1" and
    o1: "owners s1 = (owners s)[k := owners s ! k @ [base]]" and
    hb1: "heap s1 base = Some bb" "view_desc bb = None" "ptr_type bb = ''gpu''" and
    ex1: "\<forall>b0. heap s base = Some b0 \<longrightarrow> exposed_f bb = exposed_f b0"
    by blast
  from get_base_ext[OF e1 assms(2)] g obtain b1 where
    b1: "heap s1 r = Some b1" "get_base r b1 = Inr (base, off)" by auto
  have tok: "holds_token s1 k base"
    using o1 assms(3) by (simp add: holds_token_def)
  from wf_queries[OF w assms(2)] g obtain b0 where
    q0: "heap s base = Some b0" "exposed s r = Some (exposed_f b0)"
        "spillable s r = Some (\<not> exposed_f b0 \<and> \<not> pinned s base)" by auto
  from wf_queries[OF w1 b1(1)] b1(2) hb1(1) have
    q1: "exposed s1 r = Some (exposed_f bb)" by auto
  have a: "is_spilled s1 r = Some False" "spillable s1 r = Some False"
    using pinned_unspillable[OF w1 b1 holds_token_pinned[OF tok]] by simp_all
  have b: "exposed s1 r = exposed s r" using q0 q1 ex1 by simp
  have c: "\<forall>ys s2. run pol ys s1 = Some s2 \<longrightarrow> Op_drop_owners k \<notin> set ys \<longrightarrow>
              spillable s2 r = Some False \<and> is_spilled s2 r = Some False"
  proof (intro allI impI)
    fix ys s2 assume r2: "run pol ys s1 = Some s2" and nd: "Op_drop_owners k \<notin> set ys"
    from run_wf[OF w1 r2] have w2: "wf_state s2" and e2: "ext s1 s2" by simp_all
    from get_base_ext[OF e2 b1(1)] b1(2) obtain b2 where
      b2: "heap s2 r = Some b2" "get_base r b2 = Inr (base, off)" by auto
    from run_holds_token[OF w1 r2 nd tok] have "pinned s2 base" by (rule holds_token_pinned)
    from pinned_unspillable[OF w2 b2 this]
    show "spillable s2 r = Some False \<and> is_spilled s2 r = Some False" .
  qed
  have d: "spillable s r = Some True \<longrightarrow>
              expose_counter (drop_owners s1 k) r = Some 1 \<and>
              spillable (drop_owners s1 k) r = Some True"
  proof
    assume "spillable s r = Some True"
    with q0 have ne: "\<not> exposed_f b0" and np: "\<not> pinned s base" by simp_all
    let ?s2 = "drop_owners s1 k"
    from drop_after_pin_unpinned[OF np o1] have np2: "\<not> pinned ?s2 base" .
    have "step pol (Op_drop_owners k) s1 = Some ?s2" by simp
    from step_wf[OF w1 this] have w2: "wf_state ?s2" by simp
    have h2: "heap ?s2 r = Some b1" "heap ?s2 base = Some bb"
      using b1 hb1 by (simp_all add: drop_owners_def)
    from wf_queries[OF w2 h2(1)] b1(2) h2(2) have
      "expose_counter ?s2 r = Some (use_count ?s2 base)"
      "spillable ?s2 r = Some (\<not> exposed_f bb \<and> \<not> pinned ?s2 base)" by auto
    moreover from ex1 q0 ne have "\<not> exposed_f bb" by simp
    moreover from np2 have "use_count ?s2 base = 1" by (simp add: use_count_pinned)
    ultimately show "expose_counter ?s2 r = Some 1 \<and> spillable ?s2 r = Some True"
      using np2 by simp
  qed
  from p a b c d show ?thesis by blast
qed

theorem ptr_raw_pins_without_exposing_witness:
  "run no_spill unpinned_ops (initial zero_mem 0) = Some unpinned_state \<and>
   heap unpinned_state 0 = Some (the (heap unpinned_state 0)) \<and>
   0 < length (owners unpinned_state) \<and>
   spillable unpinned_state 0 = Some True \<and>
   map_option fst (ptr_raw unpinned_state 0 0) = Some (Inr 0) \<and>
   is_spilled token_state 0 = Some False \<and> spillable token_state 0 = Some False \<and>
   exposed token_state 0 = exposed unpinned_state 0 \<and>
   run no_spill token_ops token_state = Some (the (run no_spill token_ops token_state)) \<and>
   spillable (the (run no_spill token_ops token_state)) 0 = Some False \<and>
   is_spilled (the (run no_spill token_ops token_state)) 0 = Some False \<and>
   expose_counter (drop_owners token_state 0) 0 = Some 1 \<and>
   spillable (drop_owners token_state 0) 0 = Some True"
proof -
  have h1: "run no_spill unpinned_ops (initial zero_mem 0) = Some unpinned_state"
    by (simp add: unpinned_state_def unpinned_ops_def eval_defs)
  have h2: "heap unpinned_state 0 = Some (the (heap unpinned_state 0))"
    by (simp add: unpinned_state_def unpinned_ops_def eval_defs)
  have h3: "0 < length (owners unpinned_state)"
    by (simp add: unpinned_state_def unpinned_ops_def eval_defs)
  have h4: "spillable unpinned_state 0 = Some True"
    by (simp add: unpinned_state_def unpinned_ops_def eval_defs)
  have h5: "ptr_raw unpinned_state 0 0 = Some (Inr 0, token_state)"
    by (simp add: token_state_def unpinned_state_def unpinned_ops_def eval_defs)
  have h6: "run no_spill token_ops token_state = Some (the (run no_spill token_ops token_state))"
    by (simp add: token_state_def token_ops_def unpinned_state_def unpinned_ops_def eval_defs)
  have h7: "Op_drop_owners 0 \<notin> set token_ops"
    by (simp add: token_ops_def)
  from ptr_raw_pins_without_exposing[OF h1 h2 h3] h5 have
    a: "is_spilled token_state 0 = Some False" "spillable token_state 0 = Some False"
       "exposed token_state 0 = exposed unpinned_state 0" and
    b: "\<forall>ys s2. run no_spill ys token_state = Some s2 \<longrightarrow> Op_drop_owners 0 \<notin> set ys \<longrightarrow>
          spillable s2 0 = Some False \<and> is_spilled s2 0 = Some False" and
    c: "spillable unpinned_state 0 = Some True \<longrightarrow>
          expose_counter (drop_owners token_state 0) 0 = Some 1 \<and>
          spillable (drop_owners token_state 0) 0 = Some True"
    by auto
  from b h6 h7 have "spillable (the (run no_spill token_ops token_state)) 0 = Some False \<and>
    is_spilled (the (run no_spill token_ops token_state)) 0 = Some False" by blast
  with a c h1 h2 h3 h4 h5 h6 show ?thesis by simp
qed



text \<open>
  C9. In a reachable state, \<open>memoryview\<close> on a buffer whose base is not spillable returns
  a new host byte array holding the bytes of device memory from the base address plus
  the offset, as many as the buffer's size, and the state it leaves is the state it
  found: the base stays on the device, at the same address, with the same device memory.
\<close>

theorem memoryview_unspillable_copies:
  assumes "run pol xs (initial dm a) = Some s" and "heap s r = Some b"
    and "get_base r b = Inr (base, off)" and "heap s base = Some bb"
    and "spillable s base = Some False"
  shows "memoryview s r =
           Some (Inr (bytes_view (copy_ptr_to_host (dmem s) (ptr_f bb + off) (nat (size_f b)))),
                 s) \<and>
         is_spilled s base = Some False"
proof -
  have w: "wf_state s" by (rule reachable_wf[OF assms(1)])
  from get_base_wf[OF w assms(2)] assms(3,4) have vn: "view_desc bb = None" by auto
  from spillable_base_pinned[OF assms(4) vn] assms(5) have "exposed_f bb \<or> pinned s base" by auto
  from memoryview_unspillable[OF w assms(2,3,4) vn this] is_spilled_base[OF assms(4) vn]
  show ?thesis by simp
qed

theorem memoryview_unspillable_copies_witness:
  "run no_spill exposed_ops (initial zero_mem 0) = Some exposed_state \<and>
   heap exposed_state 1 = Some (the (heap exposed_state 1)) \<and>
   get_base 1 (the (heap exposed_state 1)) = Inr (0, 1) \<and>
   heap exposed_state 0 = Some (the (heap exposed_state 0)) \<and>
   spillable exposed_state 0 = Some False \<and>
   memoryview exposed_state 1 =
     Some (Inr (bytes_view
                  (copy_ptr_to_host (dmem exposed_state) (ptr_f (the (heap exposed_state 0)) + 1)
                     (nat (size_f (the (heap exposed_state 1)))))), exposed_state) \<and>
   is_spilled exposed_state 0 = Some False"
proof -
  have h1: "run no_spill exposed_ops (initial zero_mem 0) = Some exposed_state"
    by (simp add: exposed_state_def exposed_ops_def eval_defs)
  have h2: "heap exposed_state 1 = Some (the (heap exposed_state 1))"
    by (simp add: exposed_state_def exposed_ops_def eval_defs)
  have h3: "get_base 1 (the (heap exposed_state 1)) = Inr (0, 1)"
    by (simp add: exposed_state_def exposed_ops_def eval_defs)
  have h4: "heap exposed_state 0 = Some (the (heap exposed_state 0))"
    by (simp add: exposed_state_def exposed_ops_def eval_defs)
  have h5: "spillable exposed_state 0 = Some False"
    by (simp add: exposed_state_def exposed_ops_def eval_defs)
  from memoryview_unspillable_copies[OF h1 h2 h3 h4 h5] h1 h2 h3 h4 h5 show ?thesis by blast
qed


text \<open>
  C6. Slicing flattens. A key whose indices against the size of a buffer are \<open>a\<close> and
  \<open>z\<close> with unit step gives a new view of size \<open>z - a\<close>: of a base buffer, the view names
  that buffer at offset \<open>a\<close>; of a view, it names the base of that view at the view's own
  offset plus \<open>a\<close>. The key \<open>[a:z]\<close> with \<open>0 \<le> a \<le> z\<close> within the size has these indices.
  In every reachable state the base a view names is not itself a view, and the view
  lies within it. In particular, for a base buffer \<open>A\<close> of 1024 bytes, the slice
  \<open>[100:500]\<close> and then the slice \<open>[50:150]\<close> of that view give a view that names \<open>A\<close>
  itself at offset 150, with size 100.
\<close>

theorem slicing_flattens_to_base:
  "(\<forall>s r b key a z. heap s r = Some b \<longrightarrow> slice_indices key (size_f b) = Inr (a, z, 1) \<longrightarrow>
      a \<le> z \<longrightarrow>
      (\<exists>s' bv. getitem s r key = Some (Inr (next_ref s), s') \<and>
         heap s' (next_ref s) = Some bv \<and> size_f bv = z - a \<and>
         view_desc bv =
           Some (case view_desc b of None \<Rightarrow> (r, a) | Some (base, off) \<Rightarrow> (base, off + a)))) \<and>
   (\<forall>a z n. 0 \<le> a \<longrightarrow> a \<le> z \<longrightarrow> z \<le> n \<longrightarrow> slice_indices (slice_of a z) n = Inr (a, z, 1)) \<and>
   (\<forall>pol xs dm a0 s v bv base off.
      run pol xs (initial dm a0) = Some s \<longrightarrow> heap s v = Some bv \<longrightarrow>
      view_desc bv = Some (base, off) \<longrightarrow>
      (\<exists>bb. heap s base = Some bb \<and> view_desc bb = None \<and> 0 \<le> off \<and>
            off + size_f bv \<le> size_f bb)) \<and>
   (\<forall>s A bA. heap s A = Some bA \<longrightarrow> view_desc bA = None \<longrightarrow> size_f bA = 1024 \<longrightarrow>
      (\<exists>v1 s1 v2 s2 bv. getitem s A (slice_of 100 500) = Some (Inr v1, s1) \<and>
           getitem s1 v1 (slice_of 50 150) = Some (Inr v2, s2) \<and>
           heap s2 v2 = Some bv \<and> view_desc bv = Some (A, 150) \<and> size_f bv = 100))"
proof (intro conjI allI impI)
  fix s :: state and r b key a z
  assume "heap s r = Some b" "slice_indices key (size_f b) = Inr (a, z, 1)" "a \<le> z"
  then show "\<exists>s' bv. getitem s r key = Some (Inr (next_ref s), s') \<and>
         heap s' (next_ref s) = Some bv \<and> size_f bv = z - a \<and>
         view_desc bv =
           Some (case view_desc b of None \<Rightarrow> (r, a) | Some (base, off) \<Rightarrow> (base, off + a))"
    by (cases "view_desc b") (auto simp: getitem_def create_view_def)
next
  fix a z n :: int
  assume "0 \<le> a" "a \<le> z" "z \<le> n"
  then show "slice_indices (slice_of a z) n = Inr (a, z, 1)"
    by (simp add: slice_indices_def slice_of_def)
next
  fix pol xs dm a0 and s :: state and v bv base off
  assume "run pol xs (initial dm a0) = Some s" "heap s v = Some bv"
    "view_desc bv = Some (base, off)"
  then show "\<exists>bb. heap s base = Some bb \<and> view_desc bb = None \<and> 0 \<le> off \<and>
            off + size_f bv \<le> size_f bb"
    using view_okD[OF wf_view[OF reachable_wf]] by blast
next
  fix s :: state and A bA
  assume "heap s A = Some bA" "view_desc bA = None" "size_f bA = 1024"
  then show "\<exists>v1 s1 v2 s2 bv. getitem s A (slice_of 100 500) = Some (Inr v1, s1) \<and>
           getitem s1 v1 (slice_of 50 150) = Some (Inr v2, s2) \<and>
           heap s2 v2 = Some bv \<and> view_desc bv = Some (A, 150) \<and> size_f bv = 100"
    by (simp add: getitem_def create_view_def slice_indices_def slice_of_def)
qed

theorem slicing_flattens_to_base_witness:
  "run no_spill spilled_ops (initial zero_mem 0) = Some spilled_state \<and>
   heap spilled_state 1 = Some (the (heap spilled_state 1)) \<and>
   view_desc (the (heap spilled_state 1)) = Some (0, 1) \<and>
   slice_indices (slice_of 1 2) (size_f (the (heap spilled_state 1))) = Inr (1, 2, 1) \<and>
   (\<exists>s' bv. getitem spilled_state 1 (slice_of 1 2) = Some (Inr (next_ref spilled_state), s') \<and>
      heap s' (next_ref spilled_state) = Some bv \<and> size_f bv = 2 - 1 \<and>
      view_desc bv = Some (0, 1 + 1)) \<and>
   (\<exists>bb. heap spilled_state 0 = Some bb \<and> view_desc bb = None \<and> (0::int) \<le> 1 \<and>
      1 + size_f (the (heap spilled_state 1)) \<le> size_f bb) \<and>
   heap kib_state 0 = Some (the (heap kib_state 0)) \<and>
   view_desc (the (heap kib_state 0)) = None \<and> size_f (the (heap kib_state 0)) = 1024 \<and>
   (\<exists>v1 s1 v2 s2 bv. getitem kib_state 0 (slice_of 100 500) = Some (Inr v1, s1) \<and>
           getitem s1 v1 (slice_of 50 150) = Some (Inr v2, s2) \<and>
           heap s2 v2 = Some bv \<and> view_desc bv = Some (0, 150) \<and> size_f bv = 100)"
proof -
  have h1: "run no_spill spilled_ops (initial zero_mem 0) = Some spilled_state"
    by (simp add: spilled_state_def spilled_ops_def eval_defs)
  have h2: "heap spilled_state 1 = Some (the (heap spilled_state 1))"
    by (simp add: spilled_state_def spilled_ops_def eval_defs)
  have h3: "view_desc (the (heap spilled_state 1)) = Some (0, 1)"
    by (simp add: spilled_state_def spilled_ops_def eval_defs)
  have h4: "slice_indices (slice_of 1 2) (size_f (the (heap spilled_state 1))) = Inr (1, 2, 1)"
    by (simp add: spilled_state_def spilled_ops_def eval_defs)
  have h5: "(1::int) \<le> 2" by simp
  have k1: "heap kib_state 0 = Some (the (heap kib_state 0))"
    by (simp add: kib_state_def kib_ops_def eval_defs)
  have k2: "view_desc (the (heap kib_state 0)) = None"
    by (simp add: kib_state_def kib_ops_def eval_defs)
  have k3: "size_f (the (heap kib_state 0)) = 1024"
    by (simp add: kib_state_def kib_ops_def eval_defs)
  note sf1 = slicing_flattens_to_base[THEN conjunct1, rule_format]
  note sf3 = slicing_flattens_to_base[THEN conjunct2, THEN conjunct2, THEN conjunct1, rule_format]
  note sf4 = slicing_flattens_to_base[THEN conjunct2, THEN conjunct2, THEN conjunct2, rule_format]
  from sf1[OF h2 h4 h5] have
    a: "\<exists>s' bv. getitem spilled_state 1 (slice_of 1 2) = Some (Inr (next_ref spilled_state), s') \<and>
      heap s' (next_ref spilled_state) = Some bv \<and> size_f bv = 2 - 1 \<and>
      view_desc bv = Some (case view_desc (the (heap spilled_state 1)) of
                             None \<Rightarrow> (1, 1) | Some (base, off) \<Rightarrow> (base, off + 1))"
    .
  from sf3[OF h1 h2 h3] have
    b: "\<exists>bb. heap spilled_state 0 = Some bb \<and> view_desc bb = None \<and> (0::int) \<le> 1 \<and>
      1 + size_f (the (heap spilled_state 1)) \<le> size_f bb"
    .
  from sf4[OF k1 k2 k3] have
    c: "\<exists>v1 s1 v2 s2 bv. getitem kib_state 0 (slice_of 100 500) = Some (Inr v1, s1) \<and>
           getitem s1 v1 (slice_of 50 150) = Some (Inr v2, s2) \<and>
           heap s2 v2 = Some bv \<and> view_desc bv = Some (0, 150) \<and> size_f bv = 100"
    .
  from a h3 have a': "\<exists>s' bv. getitem spilled_state 1 (slice_of 1 2)
        = Some (Inr (next_ref spilled_state), s') \<and>
      heap s' (next_ref spilled_state) = Some bv \<and> size_f bv = 2 - 1 \<and>
      view_desc bv = Some (0, 1 + 1)" by simp
  from a' b c h1 h2 h3 h4 k1 k2 k3 show ?thesis by blast
qed




text \<open>
  C8, as stated, fails: the copy made by the constructor is registered with the manager
  as a spill candidate, and the budget enforcement that closes the constructor may spill
  it at once. With a manager that spills every candidate, the buffer made from a
  non-contiguous host source with \<open>exposed=True\<close> is host-resident when the constructor
  returns.
\<close>

theorem init_exposed_host_spilled_counterexample:
  "map_option fst (init spill_all (initial zero_mem 0) (SrcHost False (bytes_view [1, 2, 3])) True)
     = Some (Inr 0) \<and>
   is_spilled (snd (the (init spill_all (initial zero_mem 0)
                           (SrcHost False (bytes_view [1, 2, 3])) True))) 0
     = Some True"
  by (simp add: eval_defs)

text \<open>
  C8, amended. In a reachable state, constructing a buffer with \<open>exposed=True\<close> from a
  host source, contiguous or not, succeeds. The buffer the constructor returns reports
  \<open>exposed\<close> false, has the size of the source and holds the bytes of the source. If the
  budget enforcement that closes the constructor, run in the state the constructor has
  reached by then, does not select the new buffer, the buffer is device-resident, its
  address is the allocator's next free address at the time of the call, and device
  memory there holds the bytes of the source.
\<close>

theorem init_exposed_host_copies_to_device:
  assumes "run pol xs (initial dm a) = Some s"
  shows "\<exists>s3 s'. init_open pol s (SrcHost c hm) True = Some (Inr (next_ref s), s3) \<and>
           spill_to_device_limit pol s3 = Some s' \<and>
           init pol s (SrcHost c hm) True = Some (Inr (next_ref s), s') \<and>
           exposed s' (next_ref s) = Some False \<and>
           size_p s' (next_ref s) = Some (int (nbytes hm)) \<and>
           contents s' (next_ref s) = Some (tobytes hm) \<and>
           (next_ref s \<notin> set (pol s3) \<longrightarrow>
              is_spilled s' (next_ref s) = Some False \<and>
              map_option ptr_f (heap s' (next_ref s)) = Some (alloc_next s) \<and>
              copy_ptr_to_host (dmem s') (alloc_next s) (nbytes hm) = tobytes hm)"
proof -
  have w: "wf_state s" by (rule reachable_wf[OF assms(1)])
  have g: "reg_ok s" by (rule reachable_reg[OF assms(1)])
  let ?r = "next_ref s"
  let ?b = "\<lparr>exposed_f = False, last_accessed_f = clock s, view_desc = None,
             ptr_type = ''gpu'', ptr_memoryview = None, ptr_f = alloc_next s,
             size_f = int (nbytes hm), owner_f = Owner_DeviceBuffer (alloc_next s)\<rparr>"
  let ?s1 = "s\<lparr>clock := Suc (clock s), dmem := dmem_write (dmem s) (alloc_next s) (tobytes hm),
               alloc_next := alloc_next s + int (nbytes hm)\<rparr>"
  let ?moved = "?b\<lparr>ptr_memoryview :=
                    Some (bytes_view (copy_ptr_to_host (dmem s3) (ptr_f ?b) (nat (size_f ?b)))),
                  ptr_f := 0, owner_f := Owner_None, ptr_type := ''cpu''\<rparr>"
  have f: "init_fields s (SrcHost c hm) True = (Inr ?b, ?s1)"
    by (simp add: init_fields_def time_monotonic_def to_device_def)
  have cp1: "copy_ptr_to_host (dmem ?s1) (alloc_next s) (nbytes hm) = tobytes hm"
    using copy_after_write[of "dmem s" "alloc_next s" "tobytes hm"] by simp
  from init_new[OF w g f, of pol] obtain s3 s' where
    io: "init_open pol s (SrcHost c hm) True = Some (Inr ?r, s3)" and
    i: "init pol s (SrcHost c hm) True = Some (Inr ?r, s')" and
    w3: "wf_state s3" and h3: "heap s3 ?r = Some ?b" and
    sp3: "spill_each s3 (pol s3) = Some s'" and d3: "dmem_frame ?s1 s3" by blast
  have cp3: "copy_ptr_to_host (dmem s3) (alloc_next s) (nbytes hm) = tobytes hm"
  proof -
    have "copy_ptr_to_host (dmem s3) (alloc_next s) (nbytes hm)
            = copy_ptr_to_host (dmem ?s1) (alloc_next s) (nbytes hm)"
      by (rule copy_ptr_to_host_cong) (use d3 in \<open>simp add: dmem_frame_def\<close>)
    with cp1 show ?thesis by simp
  qed
  from spill_each_dmem[OF sp3] have d4: "dmem s' = dmem s3" by simp
  from spill_each_effect[OF sp3 h3 _ w3] have
    eff: "heap s' ?r = Some ?b \<or>
          (?r \<in> set (pol s3) \<and>
           heap s' ?r = Some (?b\<lparr>ptr_memoryview :=
                    Some (bytes_view (copy_ptr_to_host (dmem s3) (ptr_f ?b) (nat (size_f ?b)))),
                  ptr_f := 0, owner_f := Owner_None, ptr_type := ''cpu''\<rparr>))"
    by simp
  have e: "exposed s' ?r = Some False"
    using eff by (auto simp: exposed_base)
  have sz: "size_p s' ?r = Some (int (nbytes hm))"
    using eff by (auto simp: size_p_def)
  have ct: "contents s' ?r = Some (tobytes hm)"
    using eff
  proof
    assume "heap s' ?r = Some ?b"
    then show ?thesis using cp3 d4 by (simp add: contents_def get_base_def)
  next
    assume "?r \<in> set (pol s3) \<and>
           heap s' ?r = Some (?b\<lparr>ptr_memoryview :=
                    Some (bytes_view (copy_ptr_to_host (dmem s3) (ptr_f ?b) (nat (size_f ?b)))),
                  ptr_f := 0, owner_f := Owner_None, ptr_type := ''cpu''\<rparr>)"
    then show ?thesis
      using cp3 py_getslice_full[of "tobytes hm"] by (simp add: contents_def get_base_def)
  qed
  have dv: "?r \<notin> set (pol s3) \<longrightarrow>
              is_spilled s' ?r = Some False \<and>
              map_option ptr_f (heap s' ?r) = Some (alloc_next s) \<and>
              copy_ptr_to_host (dmem s') (alloc_next s) (nbytes hm) = tobytes hm"
  proof
    assume "?r \<notin> set (pol s3)"
    with eff have h: "heap s' ?r = Some ?b" by blast
    from is_spilled_base[OF h] h cp3 d4
    show "is_spilled s' ?r = Some False \<and>
              map_option ptr_f (heap s' ?r) = Some (alloc_next s) \<and>
              copy_ptr_to_host (dmem s') (alloc_next s) (nbytes hm) = tobytes hm"
      by simp
  qed
  from io sp3 i e sz ct dv show ?thesis
    by (intro exI[of _ s3] exI[of _ s']) (simp add: spill_to_device_limit_def)
qed

theorem init_exposed_host_copies_to_device_witness:
  "run spill_first kib_ops (initial zero_mem 0) = Some first_state \<and>
   is_spilled first_state 0 = Some True \<and>
   spill_first (snd (the (init_open spill_first first_state
                            (SrcHost False (bytes_view [4, 5])) True))) = [0] \<and>
   next_ref first_state = 1 \<and>
   map_option fst (init spill_first first_state (SrcHost False (bytes_view [4, 5])) True)
     = Some (Inr 1) \<and>
   exposed (snd (the (init spill_first first_state (SrcHost False (bytes_view [4, 5])) True))) 1
     = Some False \<and>
   size_p (snd (the (init spill_first first_state (SrcHost False (bytes_view [4, 5])) True))) 1
     = Some 2 \<and>
   contents (snd (the (init spill_first first_state (SrcHost False (bytes_view [4, 5])) True))) 1
     = Some [4, 5] \<and>
   is_spilled (snd (the (init spill_first first_state (SrcHost False (bytes_view [4, 5])) True))) 1
     = Some False \<and>
   map_option ptr_f
     (heap (snd (the (init spill_first first_state (SrcHost False (bytes_view [4, 5])) True))) 1)
     = Some (alloc_next first_state) \<and>
   copy_ptr_to_host
     (dmem (snd (the (init spill_first first_state (SrcHost False (bytes_view [4, 5])) True))))
     (alloc_next first_state) (nbytes (bytes_view [4, 5])) = [4, 5]"
proof -
  have h1: "run spill_first kib_ops (initial zero_mem 0) = Some first_state"
    by (simp add: first_state_def kib_ops_def spill_first_def eval_defs)
  have h2: "is_spilled first_state 0 = Some True"
    by (simp add: first_state_def kib_ops_def spill_first_def eval_defs)
  have h3: "spill_first (snd (the (init_open spill_first first_state
                            (SrcHost False (bytes_view [4, 5])) True))) = [0]"
    by (simp add: first_state_def kib_ops_def spill_first_def init_open_def eval_defs)
  have h4: "next_ref first_state = 1"
    by (simp add: first_state_def kib_ops_def spill_first_def eval_defs)
  from init_exposed_host_copies_to_device[OF h1, of False "bytes_view [4, 5]"] obtain s3 s' where
    r: "init_open spill_first first_state (SrcHost False (bytes_view [4, 5])) True
          = Some (Inr (next_ref first_state), s3)"
       "init spill_first first_state (SrcHost False (bytes_view [4, 5])) True
          = Some (Inr (next_ref first_state), s')"
       "exposed s' (next_ref first_state) = Some False"
       "size_p s' (next_ref first_state) = Some (int (nbytes (bytes_view [4, 5])))"
       "contents s' (next_ref first_state) = Some (tobytes (bytes_view [4, 5]))"
       "next_ref first_state \<notin> set (spill_first s3) \<longrightarrow>
          is_spilled s' (next_ref first_state) = Some False \<and>
          map_option ptr_f (heap s' (next_ref first_state)) = Some (alloc_next first_state) \<and>
          copy_ptr_to_host (dmem s') (alloc_next first_state) (nbytes (bytes_view [4, 5]))
            = tobytes (bytes_view [4, 5])"
    by blast
  from r(1) h3 have "spill_first s3 = [0]" by simp
  with h4 have "next_ref first_state \<notin> set (spill_first s3)" by simp
  with r(6) have
    "is_spilled s' (next_ref first_state) = Some False"
    "map_option ptr_f (heap s' (next_ref first_state)) = Some (alloc_next first_state)"
    "copy_ptr_to_host (dmem s') (alloc_next first_state) (nbytes (bytes_view [4, 5]))
            = tobytes (bytes_view [4, 5])"
    by simp_all
  with r(2,3,4,5) h1 h2 h3 h4 show ?thesis by simp
qed

end
